theory Spec2Isabelle
  imports Main
begin

section \<open>JavaScript values\<close>

text \<open>
  A JavaScript string is a sequence of UTF-16 code units; it is modelled as a list of
  naturals, and \<open>js\<close> turns an Isabelle literal into that list. The elements of the
  numeric arrays the code builds are numbers, \<open>NaN\<close> (what \<open>parseInt\<close> gives on a
  chunk without digits) or, when a decoded entry list is read as if it were bytes, objects.
\<close>

type_synonym jsstring = "nat list"

definition js :: "string \<Rightarrow> jsstring" where
  "js s = map of_char s"

datatype jsval = Num int | NaN | Obj

text \<open>\<open>String.fromCharCode\<close>: the argument goes through ToUint16; \<open>NaN\<close> and an
  object (whose number value is \<open>NaN\<close>) give 0.\<close>

fun fromCharCode :: "jsval \<Rightarrow> nat" where
  "fromCharCode (Num n) = nat (n mod 65536)"
| "fromCharCode NaN = 0"
| "fromCharCode Obj = 0"

text \<open>The conversion of a value stored into a \<open>Uint8Array\<close>.\<close>

fun toUint8 :: "jsval \<Rightarrow> nat" where
  "toUint8 (Num n) = nat (n mod 256)"
| "toUint8 NaN = 0"
| "toUint8 Obj = 0"

text \<open>White space as \<open>String.prototype.trim\<close> and the regular expression class
  \<open>\s\<close> read it: the WhiteSpace and LineTerminator code points.\<close>

definition isWhiteSpace :: "nat \<Rightarrow> bool" where
  "isWhiteSpace c \<longleftrightarrow>
     c = 9 \<or> c = 10 \<or> c = 11 \<or> c = 12 \<or> c = 13 \<or> c = 32 \<or> c = 160 \<or> c = 5760 \<or>
     (8192 \<le> c \<and> c \<le> 8202) \<or> c = 8232 \<or> c = 8233 \<or> c = 8239 \<or> c = 8287 \<or>
     c = 12288 \<or> c = 65279"

definition trim :: "jsstring \<Rightarrow> jsstring" where
  "trim s = rev (dropWhile isWhiteSpace (rev (dropWhile isWhiteSpace s)))"

definition startsWith :: "jsstring \<Rightarrow> jsstring \<Rightarrow> bool" where
  "startsWith s p \<longleftrightarrow> take (length p) s = p"

text \<open>A string is well formed when every surrogate code unit in it is half of a pair:
  a high surrogate followed by a low one.\<close>

definition isHighSurrogate :: "nat \<Rightarrow> bool" where
  "isHighSurrogate u \<longleftrightarrow> 55296 \<le> u \<and> u \<le> 56319"

definition isLowSurrogate :: "nat \<Rightarrow> bool" where
  "isLowSurrogate u \<longleftrightarrow> 56320 \<le> u \<and> u \<le> 57343"

fun wellFormed :: "jsstring \<Rightarrow> bool" where
  "wellFormed [] = True"
| "wellFormed [u] = (u < 65536 \<and> \<not> isHighSurrogate u \<and> \<not> isLowSurrogate u)"
| "wellFormed (u # v # r) =
     (if isHighSurrogate u then isLowSurrogate v \<and> wellFormed r
      else u < 65536 \<and> \<not> isLowSurrogate u \<and> wellFormed (v # r))"

text \<open>\<open>Array.prototype.indexOf(v, from)\<close>: the first index at or after \<open>from\<close>
  holding \<open>v\<close>, or -1. A negative \<open>from\<close> counts from the end.\<close>

fun find_from :: "'a list \<Rightarrow> 'a \<Rightarrow> nat \<Rightarrow> int" where
  "find_from [] v i = - 1"
| "find_from (x # xs) v i = (if x = v then int i else find_from xs v (Suc i))"

definition indexOf :: "'a list \<Rightarrow> 'a \<Rightarrow> int \<Rightarrow> int" where
  "indexOf xs v from =
     (let n = int (length xs);
          k = (if 0 \<le> from then from else max (n + from) 0)
      in if n \<le> k then - 1 else find_from (drop (nat k) xs) v (nat k))"

text \<open>\<open>slice(start, end)\<close> of arrays and typed arrays: negative indices count from
  the end, both are clamped to the length.\<close>

definition slice :: "'a list \<Rightarrow> int \<Rightarrow> int \<Rightarrow> 'a list" where
  "slice xs start end =
     (let n = int (length xs);
          k = (if start < 0 then max (n + start) 0 else min start n);
          f = (if end < 0 then max (n + end) 0 else min end n)
      in take (nat (f - k)) (drop (nat k) xs))"

section \<open>The storage backend and the Git object\<close>

text \<open>
  The backend (\<open>ZeroPage\<close>) is a file store addressed by path. It is modelled as a
  reliable store: \<open>files\<close> maps a path to the string last written there, a read of
  an absent path fails, and a write that reaches the store succeeds. \<open>dirs\<close> is what
  the \<open>dirList\<close> command answers for a directory (\<open>None\<close>: the command fails or
  answers nothing).
\<close>

record backend =
  files :: "jsstring \<rightharpoonup> jsstring"
  dirs :: "jsstring \<rightharpoonup> jsstring list"

record tree_item =
  item_type :: jsstring
  item_name :: jsstring
  item_id :: jsstring

text \<open>
  The \<open>content\<close> field of an object holds the raw payload after \<open>readObject\<close> and
  the decoded value after \<open>readUnknownObject\<close>. The records that \<open>parseCommit\<close> and
  \<open>parseTag\<close> build are kept symbolic: \<open>CommitOf c\<close> is the commit record decoded
  from the content \<open>c\<close>.
\<close>

datatype content =
    Bytes "jsval list"
  | Items "tree_item list"
  | CommitOf content
  | TagOf content

record gitobject =
  obj_type :: jsstring
  obj_content :: content
  obj_id :: jsstring

record git =
  root :: jsstring
  zeroPage :: backend
  packedIndex :: "jsstring list"
  objectCache :: "jsstring \<rightharpoonup> gitobject"

text \<open>The constructor: an empty pack index and an empty cache.\<close>

definition new_git :: "jsstring \<Rightarrow> backend \<Rightarrow> git" where
  "new_git r zp = \<lparr>root = r, zeroPage = zp, packedIndex = [], objectCache = Map.empty\<rparr>"

text \<open>Every failure of the source is a plain \<open>Error\<close> told apart by its message.\<close>

datatype error =
    FailedToReadFile jsstring
  | FailedToReadObject jsstring error
  | PackedNotImplemented
  | NotATree jsstring
  | NoObjectNamed jsstring jsstring
  | UnknownRef jsstring
  | CouldNotFindBranch jsstring
  | NoHeadRef
  | URIError

definition arrayToString :: "jsval list \<Rightarrow> jsstring" where
  "arrayToString array = map fromCharCode array"

definition stringToArray :: "jsstring \<Rightarrow> jsval list" where
  "stringToArray s = map (\<lambda>c. Num (int c)) s"

definition isHexLower :: "nat \<Rightarrow> bool" where
  "isHexLower c \<longleftrightarrow> (97 \<le> c \<and> c \<le> 102) \<or> (48 \<le> c \<and> c \<le> 57)"

text \<open>\<open>/^[a-f0-9]{40}$/\<close>\<close>

definition isSha :: "jsstring \<Rightarrow> bool" where
  "isSha s \<longleftrightarrow> length s = 40 \<and> list_all isHexLower s"

text \<open>\<open>readFile\<close> turns the string the backend answers into a \<open>Uint8Array\<close>, which
  keeps each code unit modulo 256; any failure of the backend is rethrown as
  "Failed to read file".\<close>

definition readFile :: "git \<Rightarrow> jsstring \<Rightarrow> error + jsval list" where
  "readFile g path =
     (case files (zeroPage g) (root g @ js ''/'' @ path) of
        None \<Rightarrow> Inl (FailedToReadFile path)
      | Some content \<Rightarrow> Inr (map (\<lambda>c. Num (int (c mod 256))) content))"

text \<open>\<open>ZeroPage.writeFile\<close> passes the content through \<open>encodeURIComponent\<close>
  before it sends the command. That call throws \<open>URIError\<close> on a string that is not
  well formed, and then nothing is written.\<close>

definition zeroPageWriteFile :: "backend \<Rightarrow> jsstring \<Rightarrow> jsstring \<Rightarrow> error + backend" where
  "zeroPageWriteFile zp path content =
     (if wellFormed content then Inr (zp\<lparr>files := (files zp)(path \<mapsto> content)\<rparr>)
      else Inl URIError)"

definition writeFile :: "git \<Rightarrow> jsstring \<Rightarrow> jsval list \<Rightarrow> error + git" where
  "writeFile g path content =
     (let contentString = map fromCharCode content
      in case zeroPageWriteFile (zeroPage g) (root g @ js ''/'' @ path) contentString of
           Inl e \<Rightarrow> Inl e
         | Inr zp \<Rightarrow> Inr (g\<lparr>zeroPage := zp\<rparr>))"

section \<open>Ref management\<close>

text \<open>
  \<open>getRef\<close> follows symbolic refs by calling itself, with no bound on the number of
  hops, so it is a partial function: \<open>None\<close> is a call that never returns. The inner
  call is returned without \<open>await\<close>, so its failure is not caught by the outer
  \<open>try\<close> and carries the name of the ref that could not be read.
\<close>

partial_function (option) getRef :: "git \<Rightarrow> jsstring \<Rightarrow> (error + jsstring) option" where
  "getRef g ref =
     (case readFile g ref of
        Inl e \<Rightarrow> Some (Inl (UnknownRef ref))
      | Inr content \<Rightarrow>
          (let refContent = trim (arrayToString content)
           in if startsWith refContent (js ''ref:'')
              then getRef g (trim (drop 4 refContent))
              else Some (Inr refContent)))"

definition setRef :: "git \<Rightarrow> jsstring \<Rightarrow> jsstring \<Rightarrow> error + git" where
  "setRef g ref commit = writeFile g ref (stringToArray commit)"

text \<open>\<open>getHead\<close>: the content of \<open>HEAD\<close> with a leading
  \<open>/^ref:\s*refs\/heads\//\<close> removed, then trimmed.\<close>

definition stripHeadPrefix :: "jsstring \<Rightarrow> jsstring" where
  "stripHeadPrefix s =
     (if startsWith s (js ''ref:'') \<and>
         startsWith (dropWhile isWhiteSpace (drop 4 s)) (js ''refs/heads/'')
      then drop 11 (dropWhile isWhiteSpace (drop 4 s))
      else s)"

definition getHead :: "git \<Rightarrow> error + jsstring" where
  "getHead g =
     (case readFile g (js ''HEAD'') of
        Inl e \<Rightarrow> Inl NoHeadRef
      | Inr head \<Rightarrow> Inr (trim (stripHeadPrefix (arrayToString head))))"

text \<open>\<open>getBranchCommit\<close>: a full lower-case hex id is returned as it is; the empty
  name goes through \<open>HEAD\<close>; any other name is looked up as a branch, then as a tag.\<close>

partial_function (option) getBranchCommit :: "git \<Rightarrow> jsstring \<Rightarrow> (error + jsstring) option" where
  "getBranchCommit g branch =
     (if isSha branch then Some (Inr branch)
      else if branch = [] then
        (case getHead g of
           Inl e \<Rightarrow> Some (Inl e)
         | Inr head \<Rightarrow> getBranchCommit g head)
      else
        (case getRef g (js ''refs/heads/'' @ branch) of
           None \<Rightarrow> None
         | Some (Inr commit) \<Rightarrow> Some (Inr commit)
         | Some (Inl e) \<Rightarrow>
             (case getRef g (js ''refs/tags/'' @ branch) of
                None \<Rightarrow> None
              | Some (Inr commit) \<Rightarrow> Some (Inr commit)
              | Some (Inl tagError) \<Rightarrow> Some (Inl (CouldNotFindBranch branch)))))"

text \<open>
  One hop of \<open>getRef\<close>: the name a ref's content points at, when the ref can be read
  and its trimmed content starts with the symbolic marker. \<open>chainEnds g ref\<close> says that
  the hops from \<open>ref\<close> reach, after finitely many steps, a ref that is absent or not
  symbolic.
\<close>

definition symbolicTarget :: "git \<Rightarrow> jsstring \<Rightarrow> jsstring option" where
  "symbolicTarget g ref =
     (case readFile g ref of
        Inl e \<Rightarrow> None
      | Inr content \<Rightarrow>
          (let refContent = trim (arrayToString content)
           in if startsWith refContent (js ''ref:'')
              then Some (trim (drop 4 refContent))
              else None))"

inductive chainEnds :: "git \<Rightarrow> jsstring \<Rightarrow> bool" where
  last_hop: "symbolicTarget g ref = None \<Longrightarrow> chainEnds g ref"
| next_hop: "symbolicTarget g ref = Some t \<Longrightarrow> chainEnds g t \<Longrightarrow> chainEnds g ref"

section \<open>Objects\<close>

text \<open>The compression and hash utilities of the source are placeholders: \<open>inflate\<close>
  and \<open>deflate\<close> return their argument and \<open>sha\<close> returns a constant string.\<close>

definition inflate :: "jsval list \<Rightarrow> jsval list" where
  "inflate data = data"

definition deflate :: "jsval list \<Rightarrow> jsval list" where
  "deflate data = data"

definition sha :: "jsval list \<Rightarrow> jsstring" where
  "sha data = js ''placeholder_sha''"

text \<open>The decimal digits of a length, as a template literal prints it.\<close>

fun decimal :: "nat \<Rightarrow> jsstring" where
  "decimal n = (if n < 10 then [48 + n] else decimal (n div 10) @ [48 + n mod 10])"

definition objectPath :: "jsstring \<Rightarrow> jsstring" where
  "objectPath ident = js ''objects/'' @ take 2 ident @ js ''/'' @ drop 2 ident"

text \<open>\<open>writeObject\<close> returns the id once the write has gone through; a failure of
  the write is the failure of \<open>writeObject\<close>.\<close>

definition writeObject :: "git \<Rightarrow> jsstring \<Rightarrow> jsval list \<Rightarrow> error + jsstring \<times> git" where
  "writeObject g type content =
     (let header = stringToArray (type @ js '' '' @ decimal (length content));
          data = header @ [Num 0] @ content;
          ident = sha data;
          compressed = deflate data
      in case writeFile g (objectPath ident) compressed of
           Inl e \<Rightarrow> Inl e
         | Inr g1 \<Rightarrow> Inr (ident, g1))"

definition writeBlob :: "git \<Rightarrow> jsval list \<Rightarrow> error + jsstring \<times> git" where
  "writeBlob g content = writeObject g (js ''blob'') content"

definition readUnpackedObject :: "git \<Rightarrow> jsstring \<Rightarrow> error + gitobject" where
  "readUnpackedObject g ident =
     (case readFile g (objectPath ident) of
        Inl e \<Rightarrow> Inl e
      | Inr compressed \<Rightarrow>
          (let decompressed = inflate compressed;
               spaceIndex = indexOf decompressed (Num 32) 0;
               nullIndex = indexOf decompressed (Num 0) 0;
               type = arrayToString (slice decompressed 0 spaceIndex);
               content = slice decompressed (nullIndex + 1) (int (length decompressed))
           in Inr \<lparr>obj_type = type, obj_content = Bytes content, obj_id = ident\<rparr>))"

text \<open>\<open>readPackedObject\<close> always throws.\<close>

definition readPackedObject :: "git \<Rightarrow> jsstring \<Rightarrow> error + gitobject" where
  "readPackedObject g ident = Inl PackedNotImplemented"

text \<open>\<open>readObject\<close> answers from the cache when it can; otherwise it reads the object,
  stores it in the cache and returns it. Any failure is rethrown as
  "Failed to read object".\<close>

definition readObject :: "git \<Rightarrow> jsstring \<Rightarrow> (error + gitobject) \<times> git" where
  "readObject g ident =
     (case objectCache g ident of
        Some object \<Rightarrow> (Inr object, g)
      | None \<Rightarrow>
          (case (if ident \<in> set (packedIndex g) then readPackedObject g ident
                 else readUnpackedObject g ident) of
             Inl e \<Rightarrow> (Inl (FailedToReadObject ident e), g)
           | Inr object \<Rightarrow> (Inr object, g\<lparr>objectCache := (objectCache g)(ident \<mapsto> object)\<rparr>)))"

section \<open>Hex ids\<close>

definition hexchar :: "nat \<Rightarrow> nat" where
  "hexchar d = (if d < 10 then 48 + d else 87 + d)"

fun hexdigits :: "nat \<Rightarrow> jsstring" where
  "hexdigits n = (if n < 16 then [hexchar n] else hexdigits (n div 16) @ [hexchar (n mod 16)])"

text \<open>\<open>toString(16)\<close> on an array element: a number prints in lower-case hex, with a
  sign when negative; \<open>NaN\<close> prints as "NaN"; an object, whose \<open>toString\<close> ignores
  the radix, as "[object Object]".\<close>

fun toString16 :: "jsval \<Rightarrow> jsstring" where
  "toString16 (Num n) = (if n < 0 then 45 # hexdigits (nat (- n)) else hexdigits (nat n))"
| "toString16 NaN = js ''NaN''"
| "toString16 Obj = js ''[object Object]''"

definition padStart2 :: "jsstring \<Rightarrow> jsstring" where
  "padStart2 s = (if length s < 2 then replicate (2 - length s) 48 @ s else s)"

definition unpackSha :: "jsval list \<Rightarrow> jsstring" where
  "unpackSha buffer = concat (map (\<lambda>byte. padStart2 (toString16 byte)) buffer)"

definition isHexDigit :: "nat \<Rightarrow> bool" where
  "isHexDigit c \<longleftrightarrow> (48 \<le> c \<and> c \<le> 57) \<or> (97 \<le> c \<and> c \<le> 102) \<or> (65 \<le> c \<and> c \<le> 70)"

definition hexval :: "nat \<Rightarrow> int" where
  "hexval c = (if c \<le> 57 then int c - 48 else if 97 \<le> c then int c - 87 else int c - 55)"

text \<open>\<open>parseInt(s, 16)\<close>: leading white space is skipped, then a sign, then a
  \<open>0x\<close> prefix; the longest run of hex digits that follows is the value, and no digit
  at all gives \<open>NaN\<close>.\<close>

definition parseInt16 :: "jsstring \<Rightarrow> jsval" where
  "parseInt16 s =
     (let s1 = dropWhile isWhiteSpace s;
          sign = (if take 1 s1 = [45] then - 1 else 1);
          s2 = (if take 1 s1 = [45] \<or> take 1 s1 = [43] then drop 1 s1 else s1);
          s3 = (if take 2 s2 = [48, 120] \<or> take 2 s2 = [48, 88] then drop 2 s2 else s2);
          ds = takeWhile isHexDigit s3
      in if ds = [] then NaN else Num (sign * foldl (\<lambda>a d. 16 * a + hexval d) 0 ds))"

fun chunks2 :: "'a list \<Rightarrow> 'a list list" where
  "chunks2 [] = []"
| "chunks2 [a] = [[a]]"
| "chunks2 (a # b # r) = [a, b] # chunks2 r"

definition packSha :: "jsstring \<Rightarrow> jsval list" where
  "packSha shaString = map parseInt16 (chunks2 shaString)"

section \<open>UTF-8\<close>

text \<open>
  \<open>encodeUTF8\<close> and \<open>decodeUTF8\<close> call the platform's \<open>TextEncoder\<close> and
  \<open>TextDecoder\<close> (the fallback in the \<open>catch\<close> is for a platform without them).
  The encoder replaces an unpaired surrogate by U+FFFD and writes each scalar value in
  one to four bytes. The decoder drops a leading byte order mark and replaces each
  ill-formed sequence by U+FFFD; a sequence ends where a byte outside the range the
  bytes before it allow is met, and that byte is read again as the start of the next.
\<close>

fun to_scalars :: "jsstring \<Rightarrow> nat list" where
  "to_scalars [] = []"
| "to_scalars [u] = [if isHighSurrogate u \<or> isLowSurrogate u then 65533 else u]"
| "to_scalars (u # v # r) =
     (if isHighSurrogate u \<and> isLowSurrogate v
      then (65536 + (u - 55296) * 1024 + (v - 56320)) # to_scalars r
      else if isHighSurrogate u \<or> isLowSurrogate u then 65533 # to_scalars (v # r)
      else u # to_scalars (v # r))"

definition utf8_bytes :: "nat \<Rightarrow> nat list" where
  "utf8_bytes cp =
     (if cp < 128 then [cp]
      else if cp < 2048 then [192 + cp div 64, 128 + cp mod 64]
      else if cp < 65536 then [224 + cp div 4096, 128 + cp div 64 mod 64, 128 + cp mod 64]
      else [240 + cp div 262144, 128 + cp div 4096 mod 64, 128 + cp div 64 mod 64,
            128 + cp mod 64])"

definition encodeUTF8 :: "jsstring \<Rightarrow> jsval list" where
  "encodeUTF8 str = map (\<lambda>b. Num (int b)) (concat (map utf8_bytes (to_scalars str)))"

definition isCont :: "nat \<Rightarrow> bool" where
  "isCont b \<longleftrightarrow> 128 \<le> b \<and> b \<le> 191"

fun utf8_decode :: "nat list \<Rightarrow> nat list" where
  "utf8_decode [] = []"
| "utf8_decode (b # bs) =
     (if b < 128 then b # utf8_decode bs
      else if 194 \<le> b \<and> b \<le> 223 then
        (case bs of
           [] \<Rightarrow> [65533]
         | c1 # r1 \<Rightarrow>
             if isCont c1 then ((b - 192) * 64 + (c1 - 128)) # utf8_decode r1
             else 65533 # utf8_decode (c1 # r1))
      else if 224 \<le> b \<and> b \<le> 239 then
        (case bs of
           [] \<Rightarrow> [65533]
         | c1 # r1 \<Rightarrow>
             if (if b = 224 then 160 else 128) \<le> c1 \<and> c1 \<le> (if b = 237 then 159 else 191) then
               (case r1 of
                  [] \<Rightarrow> [65533]
                | c2 # r2 \<Rightarrow>
                    if isCont c2
                    then ((b - 224) * 4096 + (c1 - 128) * 64 + (c2 - 128)) # utf8_decode r2
                    else 65533 # utf8_decode (c2 # r2))
             else 65533 # utf8_decode (c1 # r1))
      else if 240 \<le> b \<and> b \<le> 244 then
        (case bs of
           [] \<Rightarrow> [65533]
         | c1 # r1 \<Rightarrow>
             if (if b = 240 then 144 else 128) \<le> c1 \<and> c1 \<le> (if b = 244 then 143 else 191) then
               (case r1 of
                  [] \<Rightarrow> [65533]
                | c2 # r2 \<Rightarrow>
                    if isCont c2 then
                      (case r2 of
                         [] \<Rightarrow> [65533]
                       | c3 # r3 \<Rightarrow>
                           if isCont c3
                           then ((b - 240) * 262144 + (c1 - 128) * 4096 + (c2 - 128) * 64 +
                                 (c3 - 128)) # utf8_decode r3
                           else 65533 # utf8_decode (c3 # r3))
                    else 65533 # utf8_decode (c2 # r2))
             else 65533 # utf8_decode (c1 # r1))
      else 65533 # utf8_decode bs)"

definition utf16_units :: "nat \<Rightarrow> nat list" where
  "utf16_units cp =
     (if cp < 65536 then [cp]
      else [55296 + (cp - 65536) div 1024, 56320 + (cp - 65536) mod 1024])"

definition decodeUTF8 :: "jsval list \<Rightarrow> jsstring" where
  "decodeUTF8 bytes =
     (let bs = map toUint8 bytes;
          bs' = (if take 3 bs = [239, 187, 191] then drop 3 bs else bs)
      in concat (map utf16_units (utf8_decode bs')))"

section \<open>Trees\<close>

text \<open>What \<open>parseTree\<close> sees when it indexes the content of an object: the bytes of a
  raw payload; one object per entry when the content is an entry list that was decoded
  before; nothing for a decoded commit or tag, which has no length.\<close>

fun elems :: "content \<Rightarrow> jsval list" where
  "elems (Bytes bs) = bs"
| "elems (Items its) = map (\<lambda>item. Obj) its"
| "elems (CommitOf c) = []"
| "elems (TagOf c) = []"

definition entryType :: "jsstring \<Rightarrow> jsstring" where
  "entryType mode =
     (if startsWith mode (js ''100'') then js ''blob''
      else if startsWith mode (js ''160'') then js ''submodule''
      else js ''tree'')"

text \<open>The loop of \<open>parseTree\<close>. It ends when \<open>pos\<close> has reached the length of the
  content; on a content where a space or a zero byte is missing \<open>pos\<close> can fall back,
  so the loop is a partial function.\<close>

partial_function (option) parseTree_loop ::
  "jsval list \<Rightarrow> int \<Rightarrow> tree_item list \<Rightarrow> tree_item list option" where
  "parseTree_loop content pos items =
     (if pos < int (length content) then
        (let spacePos = indexOf content (Num 32) pos;
             mode = arrayToString (slice content pos spacePos);
             pos1 = spacePos + 1;
             nullPos = indexOf content (Num 0) pos1;
             name = decodeUTF8 (slice content pos1 nullPos);
             pos2 = nullPos + 1;
             objectId = unpackSha (slice content pos2 (pos2 + 20));
             pos3 = pos2 + 20
         in parseTree_loop content pos3
              (items @ [\<lparr>item_type = entryType mode, item_name = name, item_id = objectId\<rparr>]))
      else Some items)"

definition parseTree :: "gitobject \<Rightarrow> tree_item list option" where
  "parseTree object = parseTree_loop (elems (obj_content object)) 0 []"

definition parseBlob :: "gitobject \<Rightarrow> content" where
  "parseBlob object = obj_content object"

definition parseCommit :: "gitobject \<Rightarrow> content" where
  "parseCommit object = CommitOf (obj_content object)"

definition parseTag :: "gitobject \<Rightarrow> content" where
  "parseTag object = TagOf (obj_content object)"

text \<open>\<open>Array.prototype.sort\<close> with a comparator is stable. Where the comparator
  orders the elements consistently, every stable sort returns the same list; the model
  builds it by insertion, each element going before the first element of the sorted rest
  that the comparator does not place before it.\<close>

fun insort_cmp :: "('a \<Rightarrow> 'a \<Rightarrow> int) \<Rightarrow> 'a \<Rightarrow> 'a list \<Rightarrow> 'a list" where
  "insort_cmp c x [] = [x]"
| "insort_cmp c x (y # ys) = (if c x y \<le> 0 then x # y # ys else y # insort_cmp c x ys)"

definition sort_cmp :: "('a \<Rightarrow> 'a \<Rightarrow> int) \<Rightarrow> 'a list \<Rightarrow> 'a list" where
  "sort_cmp c xs = foldr (insort_cmp c) xs []"

text \<open>
  \<open>writeTree\<close> compares the names with \<open>String.prototype.localeCompare\<close>, the
  collation of the platform's locale. It is a parameter of the model.
\<close>

definition sortName :: "tree_item \<Rightarrow> jsstring" where
  "sortName a = (if item_type a = js ''tree'' then item_name a @ js ''/'' else item_name a)"

definition sortedItems :: "(jsstring \<Rightarrow> jsstring \<Rightarrow> int) \<Rightarrow> tree_item list \<Rightarrow> tree_item list" where
  "sortedItems localeCompare items =
     sort_cmp (\<lambda>a b. localeCompare (sortName a) (sortName b)) items"

definition treeEntry :: "tree_item \<Rightarrow> jsval list" where
  "treeEntry item =
     (let mode = (if item_type item = js ''tree'' then js ''040000'' else js ''100644'')
      in encodeUTF8 (mode @ js '' '' @ item_name item) @ [Num 0] @ packSha (item_id item))"

definition treeContent :: "(jsstring \<Rightarrow> jsstring \<Rightarrow> int) \<Rightarrow> tree_item list \<Rightarrow> jsval list" where
  "treeContent localeCompare items = concat (map treeEntry (sortedItems localeCompare items))"

definition writeTree ::
  "(jsstring \<Rightarrow> jsstring \<Rightarrow> int) \<Rightarrow> git \<Rightarrow> tree_item list \<Rightarrow> error + jsstring \<times> git" where
  "writeTree localeCompare g items = writeObject g (js ''tree'') (treeContent localeCompare items)"

section \<open>Names that the codec preserves\<close>

text \<open>A scalar value is a code point that is not a surrogate. A name is valid for a
  tree entry when it is well formed, holds no zero code unit (the name ends at the first
  zero byte of the record) and does not start with U+FEFF (the decoder drops a leading
  byte order mark).\<close>

definition isScalar :: "nat \<Rightarrow> bool" where
  "isScalar cp \<longleftrightarrow> cp < 1114112 \<and> \<not> (55296 \<le> cp \<and> cp \<le> 57343)"

definition validName :: "jsstring \<Rightarrow> bool" where
  "validName name \<longleftrightarrow> wellFormed name \<and> 0 \<notin> set name \<and> take 1 name \<noteq> [65279]"

definition validItem :: "tree_item \<Rightarrow> bool" where
  "validItem item \<longleftrightarrow>
     (item_type item = js ''blob'' \<or> item_type item = js ''tree'') \<and>
     validName (item_name item) \<and> isSha (item_id item)"

section \<open>Comparators\<close>

text \<open>The order of two strings by their code units.\<close>

fun unitCompare :: "jsstring \<Rightarrow> jsstring \<Rightarrow> int" where
  "unitCompare [] [] = 0"
| "unitCompare [] (b # bs) = - 1"
| "unitCompare (a # as) [] = 1"
| "unitCompare (a # as) (b # bs) =
     (if a < b then - 1 else if b < a then 1 else unitCompare as bs)"

text \<open>
  What \<open>localeCompare\<close> answers on strings of ASCII letters: the collation orders them
  letter by letter without regard to case, and two strings that differ in case only by
  the first such difference, the lower-case letter first. So "a" comes before "B",
  while by code units "B" (66) comes before "a" (97).
\<close>

definition foldCase :: "nat \<Rightarrow> nat" where
  "foldCase c = (if 65 \<le> c \<and> c \<le> 90 then c + 32 else c)"

definition letterCompare :: "jsstring \<Rightarrow> jsstring \<Rightarrow> int" where
  "letterCompare a b =
     (if unitCompare (map foldCase a) (map foldCase b) \<noteq> 0
      then unitCompare (map foldCase a) (map foldCase b)
      else unitCompare b a)"

section \<open>Decoded objects and tree lookup\<close>

text \<open>
  \<open>readUnknownObject\<close> decodes the content of the object that \<open>readObject\<close> hands
  out and assigns the result to the object's \<open>content\<close> field. The object is the one
  the cache holds under the same id, so the assignment changes the cached object too.
  \<open>None\<close> is a call that does not return because the loop of \<open>parseTree\<close> does not.
\<close>

definition decodeContent :: "gitobject \<Rightarrow> content option" where
  "decodeContent object =
     (if obj_type object = js ''blob'' then Some (parseBlob object)
      else if obj_type object = js ''tree'' then map_option Items (parseTree object)
      else if obj_type object = js ''commit'' then Some (parseCommit object)
      else if obj_type object = js ''tag'' then Some (parseTag object)
      else Some (obj_content object))"

definition readUnknownObject :: "git \<Rightarrow> jsstring \<Rightarrow> ((error + gitobject) \<times> git) option" where
  "readUnknownObject g ident =
     (case readObject g ident of
        (Inl e, g1) \<Rightarrow> Some (Inl e, g1)
      | (Inr object, g1) \<Rightarrow>
          (case decodeContent object of
             None \<Rightarrow> None
           | Some c \<Rightarrow>
               Some (Inr (object\<lparr>obj_content := c\<rparr>),
                     g1\<lparr>objectCache := (objectCache g1)(ident \<mapsto> object\<lparr>obj_content := c\<rparr>)\<rparr>)))"

text \<open>\<open>String.prototype.split\<close> with a one-character separator.\<close>

fun split_acc :: "nat \<Rightarrow> jsstring \<Rightarrow> jsstring \<Rightarrow> jsstring list" where
  "split_acc sep acc [] = [rev acc]"
| "split_acc sep acc (c # cs) =
     (if c = sep then rev acc # split_acc sep [] cs else split_acc sep (c # acc) cs)"

definition split :: "nat \<Rightarrow> jsstring \<Rightarrow> jsstring list" where
  "split sep s = split_acc sep [] s"

text \<open>The entries of a decoded tree, for \<open>content.find\<close>.\<close>

fun entries :: "content \<Rightarrow> tree_item list" where
  "entries (Items its) = its"
| "entries (Bytes bs) = []"
| "entries (CommitOf c) = []"
| "entries (TagOf c) = []"

text \<open>\<open>readTreeItem\<close> on a path that is already an array of segments.\<close>

fun readTreeItemPath ::
  "git \<Rightarrow> jsstring \<Rightarrow> jsstring list \<Rightarrow> ((error + gitobject) \<times> git) option" where
  "readTreeItemPath g tree [] = readUnknownObject g tree"
| "readTreeItemPath g tree (p # path) =
     (case readUnknownObject g tree of
        None \<Rightarrow> None
      | Some (Inl e, g1) \<Rightarrow> Some (Inl e, g1)
      | Some (Inr treeObject, g1) \<Rightarrow>
          if obj_type treeObject \<noteq> js ''tree'' then Some (Inl (NotATree tree), g1)
          else
            (case find (\<lambda>item. item_name item = p) (entries (obj_content treeObject)) of
               None \<Rightarrow> Some (Inl (NoObjectNamed tree p), g1)
             | Some file \<Rightarrow> readTreeItemPath g1 (item_id file) path))"

text \<open>\<open>readTreeItem\<close> on a path string: split on \<open>/\<close>, empty parts dropped.\<close>

definition readTreeItem ::
  "git \<Rightarrow> jsstring \<Rightarrow> jsstring \<Rightarrow> ((error + gitobject) \<times> git) option" where
  "readTreeItem g tree path =
     readTreeItemPath g tree (filter (\<lambda>part. part \<noteq> []) (split 47 path))"

section \<open>Listing refs\<close>

text \<open>\<open>ZeroPage.listDirectory\<close> answers the empty list when the command fails or
  answers nothing.\<close>

definition listDirectory :: "backend \<Rightarrow> jsstring \<Rightarrow> jsstring list" where
  "listDirectory zp path = (case dirs zp path of None \<Rightarrow> [] | Some result \<Rightarrow> result)"

text \<open>The name a line of the packed-ref table contributes: the second of its parts
  between spaces, when the line is not blank, does not start with \<open>#\<close> and that part
  is not empty.\<close>

definition packedName :: "jsstring \<Rightarrow> jsstring option" where
  "packedName line =
     (if trim line \<noteq> [] \<and> \<not> startsWith line (js ''#'') then
        (case split 32 line of
           x # ref # rest \<Rightarrow> if ref \<noteq> [] then Some ref else None
         | _ \<Rightarrow> None)
      else None)"

definition addPacked :: "jsstring list \<Rightarrow> jsstring \<Rightarrow> jsstring list" where
  "addPacked refs line =
     (case packedName line of
        Some ref \<Rightarrow> if ref \<notin> set refs then refs @ [ref] else refs
      | None \<Rightarrow> refs)"

definition looseRefs :: "git \<Rightarrow> jsstring list" where
  "looseRefs g = map (\<lambda>ref. js ''refs/'' @ ref) (listDirectory (zeroPage g) (root g @ js ''/refs''))"

definition getRefList :: "git \<Rightarrow> jsstring list" where
  "getRefList g =
     (let refs = looseRefs g
      in case readFile g (js ''packed-refs'') of
           Inl e \<Rightarrow> refs
         | Inr packedRefs \<Rightarrow> foldl addPacked refs (split 10 (arrayToString packedRefs)))"

text \<open>The names the packed-ref table contributes, line by line.\<close>

definition packedNames :: "git \<Rightarrow> jsstring list" where
  "packedNames g =
     (case readFile g (js ''packed-refs'') of
        Inl e \<Rightarrow> []
      | Inr packedRefs \<Rightarrow> List.map_filter packedName (split 10 (arrayToString packedRefs)))"

section \<open>Example repositories\<close>

definition sha_a :: jsstring where
  "sha_a = js ''aaaaaaaaaaaaaaaaaaaaaaaaaaaaaaaaaaaaaaaa''"

definition sha_b :: jsstring where
  "sha_b = js ''bbbbbbbbbbbbbbbbbbbbbbbbbbbbbbbbbbbbbbbb''"

definition sha_c :: jsstring where
  "sha_c = js ''cccccccccccccccccccccccccccccccccccccccc''"

text \<open>A repository with a symbolic \<open>HEAD\<close>, one branch and one tag as loose refs,
  and a packed-ref table that lists the same branch and one branch more.\<close>

definition refs_git :: git where
  "refs_git = new_git (js ''repo'')
     \<lparr>files = [js ''repo/HEAD'' \<mapsto> js ''ref: refs/heads/master'',
               js ''repo/refs/heads/master'' \<mapsto> sha_a @ [10],
               js ''repo/refs/tags/v1'' \<mapsto> sha_b @ [10],
               js ''repo/packed-refs'' \<mapsto>
                 js ''# pack-refs with: peeled fully-peeled sorted '' @ [10] @
                 sha_c @ js '' refs/heads/master'' @ [10] @
                 sha_c @ js '' refs/heads/packed'' @ [10]],
      dirs = [js ''repo/refs'' \<mapsto> [js ''heads/master'', js ''tags/v1'']]\<rparr>"

text \<open>A repository whose only ref names itself.\<close>

definition loop_git :: git where
  "loop_git = new_git (js ''repo'')
     \<lparr>files = [js ''repo/refs/heads/loop'' \<mapsto> js ''ref: refs/heads/loop''],
      dirs = Map.empty\<rparr>"

text \<open>A repository with no file and no directory.\<close>

definition empty_git :: git where
  "empty_git = new_git (js ''repo'') \<lparr>files = Map.empty, dirs = Map.empty\<rparr>"

text \<open>Tree entries: two files, a file and a directory of the same name, a file with
  an upper-case name, and a submodule link.\<close>

definition item_a :: tree_item where
  "item_a = \<lparr>item_type = js ''blob'', item_name = js ''a'', item_id = sha_a\<rparr>"

definition item_b :: tree_item where
  "item_b = \<lparr>item_type = js ''blob'', item_name = js ''b'', item_id = sha_b\<rparr>"

definition item_B :: tree_item where
  "item_B = \<lparr>item_type = js ''blob'', item_name = js ''B'', item_id = sha_b\<rparr>"

definition item_foo :: tree_item where
  "item_foo = \<lparr>item_type = js ''blob'', item_name = js ''foo'', item_id = sha_b\<rparr>"

definition item_dir :: tree_item where
  "item_dir = \<lparr>item_type = js ''tree'', item_name = js ''foo'', item_id = sha_c\<rparr>"

definition item_sub :: tree_item where
  "item_sub = \<lparr>item_type = js ''submodule'', item_name = js ''lib'', item_id = sha_c\<rparr>"

text \<open>A repository with two loose objects: the tree \<open>sha_a\<close>, whose one record is
  the file "b" with id \<open>sha_b\<close>, and the blob \<open>sha_b\<close> with the content "hello\n".
  \<open>tree_git_read\<close> is the same repository after one lookup of "b": the cache holds
  both objects, decoded.\<close>

definition blob_b :: gitobject where
  "blob_b = \<lparr>obj_type = js ''blob'',
              obj_content = Bytes (stringToArray (js ''hello'') @ [Num 10]),
              obj_id = sha_b\<rparr>"

definition tree_git :: git where
  "tree_git = new_git (js ''repo'')
     \<lparr>files = [js ''repo/objects/aa/aaaaaaaaaaaaaaaaaaaaaaaaaaaaaaaaaaaaaa'' \<mapsto>
                 js ''tree 29'' @ [0] @ js ''100644 b'' @ [0] @ replicate 20 187,
               js ''repo/objects/bb/bbbbbbbbbbbbbbbbbbbbbbbbbbbbbbbbbbbbbb'' \<mapsto>
                 js ''blob 6'' @ [0] @ js ''hello'' @ [10]],
      dirs = Map.empty\<rparr>"

definition tree_git_read :: git where
  "tree_git_read = tree_git
     \<lparr>objectCache :=
        [sha_a \<mapsto> \<lparr>obj_type = js ''tree'', obj_content = Items [item_b], obj_id = sha_a\<rparr>,
         sha_b \<mapsto> blob_b]\<rparr>"

section \<open>Evaluation of the example repositories\<close>

lemmas eval_defs = new_git_def readFile_def js_def arrayToString_def trim_def
  isWhiteSpace_def startsWith_def sha_a_def sha_b_def sha_c_def isSha_def isHexLower_def

declare hexdigits.simps [simp del] decimal.simps [simp del]

lemma isSha_a: "isSha sha_a"
  by (simp add: eval_defs)

lemma hex_not_white: "isHexLower c \<Longrightarrow> \<not> isWhiteSpace c"
  by (auto simp: isHexLower_def isWhiteSpace_def)

lemma dropWhile_id: "(\<And>x. x \<in> set s \<Longrightarrow> \<not> P x) \<Longrightarrow> dropWhile P s = s"
  by (cases s) auto

lemma trim_hex: "list_all isHexLower s \<Longrightarrow> trim s = s"
proof -
  assume h: "list_all isHexLower s"
  have a: "dropWhile isWhiteSpace s = s"
    by (rule dropWhile_id) (use h in \<open>auto simp: list_all_iff hex_not_white\<close>)
  have b: "dropWhile isWhiteSpace (rev s) = rev s"
    by (rule dropWhile_id) (use h in \<open>auto simp: list_all_iff hex_not_white\<close>)
  show ?thesis by (simp add: trim_def a b)
qed

lemma trim_Nil_iff: "trim s = [] \<longleftrightarrow> (\<forall>c \<in> set s. isWhiteSpace c)"
proof
  assume "trim s = []"
  then have a: "\<forall>x \<in> set (dropWhile isWhiteSpace s). isWhiteSpace x"
    by (simp add: trim_def dropWhile_eq_Nil_conv)
  have "dropWhile isWhiteSpace s = []"
  proof (rule ccontr)
    assume n: "dropWhile isWhiteSpace s \<noteq> []"
    then have "\<not> isWhiteSpace (hd (dropWhile isWhiteSpace s))" by (rule hd_dropWhile)
    moreover have "hd (dropWhile isWhiteSpace s) \<in> set (dropWhile isWhiteSpace s)"
      using n by simp
    ultimately show False using a by blast
  qed
  then show "\<forall>c \<in> set s. isWhiteSpace c" by (simp add: dropWhile_eq_Nil_conv)
next
  assume "\<forall>c \<in> set s. isWhiteSpace c"
  then show "trim s = []" by (auto simp: trim_def dest: set_dropWhileD)
qed

lemmas item_defs = item_a_def item_b_def item_B_def item_foo_def item_dir_def item_sub_def

lemma wellFormed_low: "\<forall>c \<in> set s. c < 55296 \<Longrightarrow> wellFormed s"
  by (induction s rule: wellFormed.induct) (simp_all add: isHighSurrogate_def isLowSurrogate_def)

lemma writeFile_ok:
  "wellFormed (map fromCharCode c) \<Longrightarrow>
   writeFile g p c =
     Inr (g\<lparr>zeroPage := (zeroPage g)
            \<lparr>files := (files (zeroPage g))(root g @ js ''/'' @ p \<mapsto> map fromCharCode c)\<rparr>\<rparr>)"
  by (simp add: writeFile_def zeroPageWriteFile_def Let_def)


lemma readFile_written:
  "readFile (g\<lparr>zeroPage := (zeroPage g)
               \<lparr>files := (files (zeroPage g))(root g @ js ''/'' @ p \<mapsto> s)\<rparr>\<rparr>) p =
     Inr (map (\<lambda>c. Num (int (c mod 256))) s)"
  by (simp add: readFile_def)

lemma fromCharCode_units:
  "map fromCharCode (stringToArray s) = map (\<lambda>c. c mod 65536) s"
  by (induction s) (simp_all add: stringToArray_def nat_mod_distrib)

section \<open>The id of a written object\<close>

lemma js_neq_length: "length a \<noteq> length b \<Longrightarrow> js a \<noteq> js b"
  by (auto simp: js_def dest: arg_cong [where f = length])

lemma hello_object_string:
  "wellFormed (map fromCharCode
     (stringToArray (js ''blob'' @ js '' '' @ decimal (length (stringToArray (js ''hello'') @ [Num 10]))) @
      [Num 0] @ stringToArray (js ''hello'') @ [Num 10]))"
  by (rule wellFormed_low) (simp add: stringToArray_def js_def decimal.simps)

text \<open>
  C1. \<open>writeObject\<close> takes the id from \<open>sha\<close>, which in the source is a placeholder
  that returns the same string for every input. For the blob "hello\n" the write goes
  through and the id is "placeholder_sha", not the content hash the claim names, and it
  is not a hex id at all.
\<close>

theorem writeObject_hello_id:
  "(\<exists>g1. writeObject g (js ''blob'') (stringToArray (js ''hello'') @ [Num 10]) =
           Inr (js ''placeholder_sha'', g1)) \<and>
   js ''placeholder_sha'' \<noteq> js ''ce013625030ba8dba906f756967f9e9ca394464'' \<and>
   \<not> isSha (js ''placeholder_sha'')"
proof -
  have "\<not> isSha (js ''placeholder_sha'')"
    by (simp add: isSha_def js_def)
  moreover have "js ''placeholder_sha'' \<noteq> js ''ce013625030ba8dba906f756967f9e9ca394464''"
    by (rule js_neq_length) simp
  moreover have "\<exists>g1. writeObject g (js ''blob'') (stringToArray (js ''hello'') @ [Num 10]) =
           Inr (js ''placeholder_sha'', g1)"
    unfolding writeObject_def Let_def sha_def deflate_def
    by (simp only: writeFile_ok [OF hello_object_string] sum.case) blast
  ultimately show ?thesis by blast
qed

section \<open>Termination of symbolic-ref resolution\<close>

lemma getRef_terminal:
  "symbolicTarget g ref = None \<Longrightarrow> \<exists>r. getRef g ref = Some r"
  by (subst getRef.simps)
     (auto simp: symbolicTarget_def Let_def split: sum.splits if_splits)

lemma getRef_hop:
  "symbolicTarget g ref = Some t \<Longrightarrow> getRef g ref = getRef g t"
  by (subst getRef.simps)
     (auto simp: symbolicTarget_def Let_def split: sum.splits if_splits)

lemma chainEnds_returns: "chainEnds g ref \<Longrightarrow> \<exists>r. getRef g ref = Some r"
  by (induction rule: chainEnds.induct) (auto simp: getRef_terminal getRef_hop)

lemma returns_chainEnds: "getRef g ref = Some r \<Longrightarrow> chainEnds g ref"
proof (induction rule: getRef.raw_induct [rotated 1, consumes 1])
  case (1 getRef' g ref r)
  show ?case
  proof (cases "symbolicTarget g ref")
    case None
    then show ?thesis by (rule last_hop)
  next
    case (Some t)
    with 1(2) have "getRef' g t = Some r"
      by (auto simp: symbolicTarget_def Let_def split: sum.splits if_splits)
    then have "chainEnds g t" by (rule 1(1))
    with Some show ?thesis by (rule next_hop)
  qed
qed

lemma loop_target:
  "symbolicTarget loop_git (js ''refs/heads/loop'') = Some (js ''refs/heads/loop'')"
  by (simp add: symbolicTarget_def loop_git_def eval_defs)

lemma loop_never_ends:
  "chainEnds g ref \<Longrightarrow> g = loop_git \<Longrightarrow> ref = js ''refs/heads/loop'' \<Longrightarrow> False"
  by (induction rule: chainEnds.induct) (auto simp: loop_target)

lemma refs_git_head_file:
  "readFile refs_git (js ''HEAD'') = Inr (stringToArray (js ''ref: refs/heads/master''))"
  by (simp add: refs_git_def stringToArray_def eval_defs)

lemma refs_git_master_file:
  "readFile refs_git (js ''refs/heads/master'') = Inr (stringToArray (sha_a @ [10]))"
  by (simp add: refs_git_def stringToArray_def eval_defs)

lemma refs_git_none_file:
  "readFile refs_git (js ''refs/heads/none'') = Inl (FailedToReadFile (js ''refs/heads/none''))"
  by (simp add: refs_git_def eval_defs)

lemma refs_git_head_content:
  "trim (arrayToString (stringToArray (js ''ref: refs/heads/master''))) = js ''ref: refs/heads/master''"
  "trim (drop 4 (js ''ref: refs/heads/master'')) = js ''refs/heads/master''"
  "startsWith (js ''ref: refs/heads/master'') (js ''ref:'')"
  by (simp_all add: stringToArray_def eval_defs)

lemma refs_git_master_content:
  "trim (arrayToString (stringToArray (sha_a @ [10]))) = sha_a"
  "\<not> startsWith sha_a (js ''ref:'')"
  by (simp_all add: stringToArray_def eval_defs)

text \<open>
  C2, as the code has it. \<open>getRef\<close> keeps no hop count and no set of visited names.
  It returns exactly when the chain of \<open>ref:\<close> hops from the name ends after
  finitely many steps at a ref that is absent or not symbolic; a chain of any finite
  length is followed to its end. On a ref that cannot be read it fails with
  "Unknown ref" and the name of that ref; on a ref whose trimmed content does not start
  with \<open>ref:\<close> it returns the trimmed content; on a symbolic ref it gives what
  \<open>getRef\<close> gives on the name that follows the marker.
\<close>

theorem getRef_returns_iff_chain_ends:
  "((\<exists>r. getRef g ref = Some r) \<longleftrightarrow> chainEnds g ref) \<and>
   (readFile g ref = Inl e \<longrightarrow> getRef g ref = Some (Inl (UnknownRef ref))) \<and>
   (readFile g ref = Inr content \<and> \<not> startsWith (trim (arrayToString content)) (js ''ref:'') \<longrightarrow>
      getRef g ref = Some (Inr (trim (arrayToString content)))) \<and>
   (readFile g ref = Inr content \<and> startsWith (trim (arrayToString content)) (js ''ref:'') \<longrightarrow>
      getRef g ref = getRef g (trim (drop 4 (trim (arrayToString content)))))"
proof -
  have a: "(\<exists>r. getRef g ref = Some r) \<longleftrightarrow> chainEnds g ref"
    using chainEnds_returns returns_chainEnds by blast
  have b: "readFile g ref = Inl e \<longrightarrow> getRef g ref = Some (Inl (UnknownRef ref))"
    by (subst getRef.simps) simp
  have c: "readFile g ref = Inr content \<and> \<not> startsWith (trim (arrayToString content)) (js ''ref:'') \<longrightarrow>
      getRef g ref = Some (Inr (trim (arrayToString content)))"
    by (subst getRef.simps) (simp add: Let_def)
  have d: "readFile g ref = Inr content \<and> startsWith (trim (arrayToString content)) (js ''ref:'') \<longrightarrow>
      getRef g ref = getRef g (trim (drop 4 (trim (arrayToString content))))"
    by (subst getRef.simps) (simp add: Let_def)
  show ?thesis using a b c d by blast
qed

theorem getRef_returns_iff_chain_ends_witness:
  "chainEnds refs_git (js ''HEAD'') \<and>
   getRef refs_git (js ''HEAD'') = Some (Inr sha_a) \<and>
   getRef refs_git (js ''refs/heads/master'') = Some (Inr sha_a) \<and>
   getRef refs_git (js ''refs/heads/none'') = Some (Inl (UnknownRef (js ''refs/heads/none'')))"
proof -
  have n: "getRef refs_git (js ''refs/heads/none'') =
             Some (Inl (UnknownRef (js ''refs/heads/none'')))"
    using getRef_returns_iff_chain_ends
      [of refs_git "js ''refs/heads/none''" "FailedToReadFile (js ''refs/heads/none'')"]
      refs_git_none_file
    by simp
  have m: "getRef refs_git (js ''refs/heads/master'') = Some (Inr sha_a)"
    using getRef_returns_iff_chain_ends
      [of refs_git "js ''refs/heads/master''" _ "stringToArray (sha_a @ [10])"]
      refs_git_master_file refs_git_master_content
    by simp
  have "getRef refs_git (js ''HEAD'') = getRef refs_git (js ''refs/heads/master'')"
    using getRef_returns_iff_chain_ends
      [of refs_git "js ''HEAD''" _ "stringToArray (js ''ref: refs/heads/master'')"]
      refs_git_head_file refs_git_head_content
    by simp
  with m have h: "getRef refs_git (js ''HEAD'') = Some (Inr sha_a)" by simp
  then have "\<exists>r. getRef refs_git (js ''HEAD'') = Some r" by simp
  then have "chainEnds refs_git (js ''HEAD'')"
    using getRef_returns_iff_chain_ends [of refs_git "js ''HEAD''"] by simp
  then show ?thesis using h m n by simp
qed

text \<open>
  C2 as stated fails: on a ref whose content points at itself \<open>getRef\<close> never returns,
  so it does not fail with a resolution error either.
\<close>

theorem getRef_self_reference_never_returns:
  "getRef loop_git (js ''refs/heads/loop'') = None"
proof (cases "getRef loop_git (js ''refs/heads/loop'')")
  case None
  then show ?thesis .
next
  case (Some r)
  then have "chainEnds loop_git (js ''refs/heads/loop'')" by (rule returns_chainEnds)
  then show ?thesis using loop_never_ends by blast
qed

section \<open>UTF-8 round trip\<close>

lemma dec1: "b < 128 \<Longrightarrow> utf8_decode (b # rest) = b # utf8_decode rest"
  by simp

lemma dec2:
  "194 \<le> b \<Longrightarrow> b \<le> 223 \<Longrightarrow> isCont c1 \<Longrightarrow>
   utf8_decode (b # c1 # rest) = ((b - 192) * 64 + (c1 - 128)) # utf8_decode rest"
  by simp

lemma dec3:
  "224 \<le> b \<Longrightarrow> b \<le> 239 \<Longrightarrow> (if b = 224 then 160 else 128) \<le> c1 \<Longrightarrow>
   c1 \<le> (if b = 237 then 159 else 191) \<Longrightarrow> isCont c2 \<Longrightarrow>
   utf8_decode (b # c1 # c2 # rest) =
     ((b - 224) * 4096 + (c1 - 128) * 64 + (c2 - 128)) # utf8_decode rest"
  by simp

lemma dec4:
  "240 \<le> b \<Longrightarrow> b \<le> 244 \<Longrightarrow> (if b = 240 then 144 else 128) \<le> c1 \<Longrightarrow>
   c1 \<le> (if b = 244 then 143 else 191) \<Longrightarrow> isCont c2 \<Longrightarrow> isCont c3 \<Longrightarrow>
   utf8_decode (b # c1 # c2 # c3 # rest) =
     ((b - 240) * 262144 + (c1 - 128) * 4096 + (c2 - 128) * 64 + (c3 - 128)) # utf8_decode rest"
  by simp


lemma cont_low: "r < 64 \<Longrightarrow> isCont (128 + r)"
  by (simp add: isCont_def)

lemma utf8_decode_bytes:
  assumes "isScalar cp"
  shows "utf8_decode (utf8_bytes cp @ rest) = cp # utf8_decode rest"
proof -
  define r where "r = cp mod 64"
  define q where "q = cp div 64"
  define r1 where "r1 = q mod 64"
  define q1 where "q1 = q div 64"
  define r2 where "r2 = q1 mod 64"
  define q2 where "q2 = q1 div 64"
  have r: "r < 64" and r1: "r1 < 64" and r2: "r2 < 64"
    by (simp_all add: r_def r1_def r2_def)
  have e0: "cp = 64 * q + r" by (simp add: q_def r_def)
  have e1: "q = 64 * q1 + r1" by (simp add: q1_def r1_def)
  have e2: "q1 = 64 * q2 + r2" by (simp add: q2_def r2_def)
  have d1: "cp div 4096 = q1" by (simp add: q1_def q_def div_mult2_eq)
  have d2: "cp div 262144 = q2" by (simp add: q2_def q1_def q_def div_mult2_eq)
  have m0: "cp mod 64 = r" by (simp add: r_def)
  have m1: "cp div 64 mod 64 = r1" by (simp add: r1_def q_def)
  have m2: "cp div 4096 mod 64 = r2" by (simp add: r2_def d1)
  from assms have lt: "cp < 1114112" and ns: "cp < 55296 \<or> 57343 < cp"
    by (auto simp: isScalar_def)
  consider "cp < 128" | "128 \<le> cp" "cp < 2048" | "2048 \<le> cp" "cp < 65536"
    | "65536 \<le> cp" by linarith
  then show ?thesis
  proof cases
    case 1
    then show ?thesis by (simp add: utf8_bytes_def)
  next
    case 2
    have b: "194 \<le> 192 + q" "192 + q \<le> 223" using 2 e0 r by linarith+
    have v: "(192 + q - 192) * 64 + (128 + r - 128) = cp" using e0 by simp
    have "utf8_bytes cp = [192 + q, 128 + r]"
      using 2 by (simp add: utf8_bytes_def q_def r_def)
    then show ?thesis using dec2 [OF b cont_low [OF r], of rest] v by simp
  next
    case 3
    have b: "224 \<le> 224 + q1" "224 + q1 \<le> 239" using 3 e0 e1 r r1 by linarith+
    have lo: "(if 224 + q1 = 224 then 160 else 128) \<le> 128 + r1"
      using 3 e0 e1 r r1 by (cases "q1 = 0") simp_all
    have hi: "128 + r1 \<le> (if 224 + q1 = 237 then 159 else 191)"
      using 3 ns e0 e1 r r1 by (cases "q1 = 13") simp_all
    have v: "(224 + q1 - 224) * 4096 + (128 + r1 - 128) * 64 + (128 + r - 128) = cp"
      using e0 e1 by simp
    have "utf8_bytes cp = [224 + q1, 128 + r1, 128 + r]"
      using 3 by (simp add: utf8_bytes_def d1 m0 m1)
    then show ?thesis using dec3 [OF b lo hi cont_low [OF r], of rest] v by simp
  next
    case 4
    have b: "240 \<le> 240 + q2" "240 + q2 \<le> 244" using 4 lt e0 e1 e2 r r1 r2 by linarith+
    have lo: "(if 240 + q2 = 240 then 144 else 128) \<le> 128 + r2"
      using 4 e0 e1 e2 r r1 r2 by (cases "q2 = 0") simp_all
    have hi: "128 + r2 \<le> (if 240 + q2 = 244 then 143 else 191)"
      using 4 lt e0 e1 e2 r r1 r2 by (cases "q2 = 4") simp_all
    have v: "(240 + q2 - 240) * 262144 + (128 + r2 - 128) * 4096 + (128 + r1 - 128) * 64 +
             (128 + r - 128) = cp"
      using e0 e1 e2 by simp
    have "utf8_bytes cp = [240 + q2, 128 + r2, 128 + r1, 128 + r]"
      using 4 by (simp add: utf8_bytes_def d2 m0 m1 m2)
    then show ?thesis
      using dec4 [OF b lo hi cont_low [OF r1] cont_low [OF r], of rest] v by simp
  qed
qed

lemma utf8_decode_concat:
  "list_all isScalar cps \<Longrightarrow> utf8_decode (concat (map utf8_bytes cps)) = cps"
  by (induction cps) (simp_all add: utf8_decode_bytes)

lemma to_scalars_scalar: "wellFormed s \<Longrightarrow> list_all isScalar (to_scalars s)"
  by (induction s rule: to_scalars.induct)
     (auto simp: isScalar_def isHighSurrogate_def isLowSurrogate_def split: if_splits)

lemma to_scalars_units: "wellFormed s \<Longrightarrow> concat (map utf16_units (to_scalars s)) = s"
proof (induction s rule: to_scalars.induct)
  case 1
  then show ?case by simp
next
  case (2 u)
  then show ?case by (simp add: utf16_units_def)
next
  case (3 u v r)
  show ?case
  proof (cases "isHighSurrogate u")
    case True
    with 3(4) have lv: "isLowSurrogate v" and wr: "wellFormed r" by simp_all
    define a where "a = u - 55296"
    define b where "b = v - 56320"
    have a: "u = 55296 + a" "a < 1024"
      using True unfolding a_def isHighSurrogate_def by linarith+
    have b: "v = 56320 + b" "b < 1024"
      using lv unfolding b_def isLowSurrogate_def by linarith+
    have "utf16_units (65536 + (u - 55296) * 1024 + (v - 56320)) = [u, v]"
      using a b by (simp add: utf16_units_def)
    then show ?thesis using True lv 3(1) wr by simp
  next
    case False
    with 3(4) have "u < 65536" "\<not> isLowSurrogate u" "wellFormed (v # r)" by simp_all
    then show ?thesis using False 3(3) by (simp add: utf16_units_def)
  qed
qed

lemma utf8_bytes_small: "isScalar cp \<Longrightarrow> b \<in> set (utf8_bytes cp) \<Longrightarrow> b < 256"
proof -
  assume s: "isScalar cp" and m: "b \<in> set (utf8_bytes cp)"
  have m64: "\<And>n::nat. 128 + n mod 64 < 256"
    by (simp add: less_trans [OF mod_less_divisor])
  from s have lt: "cp < 1114112" by (simp add: isScalar_def)
  have d1: "cp < 2048 \<Longrightarrow> cp div 64 < 32" by (simp add: div_less_iff_less_mult)
  have d2: "cp < 65536 \<Longrightarrow> cp div 4096 < 16" by (simp add: div_less_iff_less_mult)
  have d3: "cp div 262144 < 5" using lt by (simp add: div_less_iff_less_mult)
  show ?thesis
    using m d1 d2 d3 m64 by (auto simp: utf8_bytes_def split: if_splits)
qed

lemma utf8_bytes_zero: "0 \<in> set (utf8_bytes cp) \<Longrightarrow> cp = 0"
  by (auto simp: utf8_bytes_def split: if_splits)

lemma to_scalars_zero: "0 \<in> set (to_scalars s) \<Longrightarrow> 0 \<in> set s"
  by (induction s rule: to_scalars.induct) (auto split: if_splits)

lemma utf8_bytes_not_bom:
  assumes "isScalar cp" "cp \<noteq> 65279"
  shows "take 3 (utf8_bytes cp @ rest) \<noteq> [239, 187, 191]"
proof
  assume t: "take 3 (utf8_bytes cp @ rest) = [239, 187, 191]"
  define r where "r = cp mod 64"
  define q where "q = cp div 64"
  define r1 where "r1 = q mod 64"
  define q1 where "q1 = q div 64"
  have e0: "cp = 64 * q + r" by (simp add: q_def r_def)
  have e1: "q = 64 * q1 + r1" by (simp add: q1_def r1_def)
  have d1: "cp div 4096 = q1" by (simp add: q1_def q_def div_mult2_eq)
  have m0: "cp mod 64 = r" by (simp add: r_def)
  have m1: "cp div 64 mod 64 = r1" by (simp add: r1_def q_def)
  consider "cp < 128" | "128 \<le> cp" "cp < 2048" | "2048 \<le> cp" "cp < 65536"
    | "65536 \<le> cp" by linarith
  then show False
  proof cases
    case 1
    then show False using t by (simp add: utf8_bytes_def)
  next
    case 2
    then have "q < 32" using e0 by linarith
    then show False using t 2 by (simp add: utf8_bytes_def q_def)
  next
    case 3
    then have "utf8_bytes cp = [224 + q1, 128 + r1, 128 + r]"
      by (simp add: utf8_bytes_def d1 m0 m1)
    with t have "q1 = 15" "r1 = 59" "r = 63" by simp_all
    then have "cp = 65279" using e0 e1 by simp
    then show False using assms(2) by simp
  next
    case 4
    then show False using t by (simp add: utf8_bytes_def)
  qed
qed

lemma to_scalars_head:
  "wellFormed s \<Longrightarrow> take 1 s \<noteq> [65279] \<Longrightarrow> take 1 (to_scalars s) \<noteq> [65279]"
  by (induction s rule: to_scalars.induct)
     (auto simp: isHighSurrogate_def isLowSurrogate_def split: if_splits)

lemma encoded_not_bom:
  assumes "wellFormed s" "take 1 s \<noteq> [65279]"
  shows "take 3 (concat (map utf8_bytes (to_scalars s))) \<noteq> [239, 187, 191]"
proof (cases "to_scalars s")
  case Nil
  then show ?thesis by simp
next
  case (Cons cp cps)
  from to_scalars_scalar [OF assms(1)] Cons have "isScalar cp" by simp
  moreover from to_scalars_head [OF assms] Cons have "cp \<noteq> 65279" by simp
  ultimately show ?thesis using Cons utf8_bytes_not_bom by simp
qed

lemma toUint8_bytes: "\<forall>b \<in> set bs. b < 256 \<Longrightarrow> map toUint8 (map (\<lambda>b. Num (int b)) bs) = bs"
  by (induction bs) (simp_all add: nat_mod_distrib)

lemma encoded_small:
  "wellFormed s \<Longrightarrow> \<forall>b \<in> set (concat (map utf8_bytes (to_scalars s))). b < 256"
  using to_scalars_scalar [of s] by (auto simp: list_all_iff dest: utf8_bytes_small)

lemma decodeUTF8_encodeUTF8:
  assumes "wellFormed s" "take 1 s \<noteq> [65279]"
  shows "decodeUTF8 (encodeUTF8 s) = s"
proof -
  let ?bs = "concat (map utf8_bytes (to_scalars s))"
  have a: "map toUint8 (map (\<lambda>b. Num (int b)) ?bs) = ?bs"
    by (rule toUint8_bytes) (rule encoded_small [OF assms(1)])
  have b: "take 3 ?bs \<noteq> [239, 187, 191]" by (rule encoded_not_bom [OF assms])
  have c: "utf8_decode ?bs = to_scalars s"
    by (rule utf8_decode_concat) (rule to_scalars_scalar [OF assms(1)])
  show ?thesis
    unfolding decodeUTF8_def encodeUTF8_def Let_def a using b c to_scalars_units [OF assms(1)] by simp
qed

lemma encodeUTF8_no_zero: "0 \<notin> set s \<Longrightarrow> Num 0 \<notin> set (encodeUTF8 s)"
proof
  assume z: "0 \<notin> set s" and m: "Num 0 \<in> set (encodeUTF8 s)"
  from m obtain cp where cp: "cp \<in> set (to_scalars s)" "0 \<in> set (utf8_bytes cp)"
    by (auto simp: encodeUTF8_def)
  from cp(2) have "cp = 0" by (rule utf8_bytes_zero)
  with cp(1) have "0 \<in> set s" by (simp add: to_scalars_zero)
  with z show False by simp
qed


section \<open>Decoding tree records\<close>

lemma find_from_skip: "v \<notin> set m \<Longrightarrow> find_from (m @ v # r) v i = int (i + length m)"
  by (induction m arbitrary: i) auto

lemma indexOf_at:
  "v \<notin> set m \<Longrightarrow> k = int (length pre) \<Longrightarrow>
   indexOf (pre @ m @ v # r) v k = k + int (length m)"
  by (simp add: indexOf_def Let_def find_from_skip)

lemma slice_mid:
  "k = int (length pre) \<Longrightarrow> f = k + int (length m) \<Longrightarrow> slice (pre @ m @ r) k f = m"
  by (simp add: slice_def Let_def)

lemma parseTree_loop_end: "parseTree_loop content (int (length content)) items = Some items"
  by (subst parseTree_loop.simps) simp

lemma parseTree_loop_entry:
  assumes "Num 32 \<notin> set m" "Num 0 \<notin> set n" "length i = 20"
  shows "parseTree_loop (pre @ m @ Num 32 # n @ Num 0 # i @ rest) (int (length pre)) items =
         parseTree_loop (pre @ m @ Num 32 # n @ Num 0 # i @ rest)
           (int (length (pre @ m @ Num 32 # n @ Num 0 # i)))
           (items @ [\<lparr>item_type = entryType (arrayToString m), item_name = decodeUTF8 n,
                      item_id = unpackSha i\<rparr>])"
proof -
  let ?c = "pre @ m @ Num 32 # n @ Num 0 # i @ rest"
  let ?p = "int (length pre)"
  have sp: "indexOf ?c (Num 32) ?p = ?p + int (length m)"
    using assms(1) by (rule indexOf_at) simp
  have md: "slice ?c ?p (?p + int (length m)) = m"
    by (rule slice_mid) simp_all
  have "indexOf ((pre @ m @ [Num 32]) @ n @ Num 0 # i @ rest) (Num 0) (?p + int (length m) + 1) =
          ?p + int (length m) + 1 + int (length n)"
    using assms(2) by (rule indexOf_at) simp
  then have nl: "indexOf ?c (Num 0) (?p + int (length m) + 1) =
          ?p + int (length m) + 1 + int (length n)" by simp
  have "slice ((pre @ m @ [Num 32]) @ n @ Num 0 # i @ rest) (?p + int (length m) + 1)
          (?p + int (length m) + 1 + int (length n)) = n"
    by (rule slice_mid) simp_all
  then have nm: "slice ?c (?p + int (length m) + 1)
          (?p + int (length m) + 1 + int (length n)) = n" by simp
  have "slice ((pre @ m @ Num 32 # n @ [Num 0]) @ i @ rest)
          (?p + int (length m) + 1 + int (length n) + 1)
          (?p + int (length m) + 1 + int (length n) + 1 + 20) = i"
    by (rule slice_mid) (simp_all add: assms(3))
  then have idb: "slice ?c (?p + int (length m) + 1 + int (length n) + 1)
          (?p + int (length m) + 1 + int (length n) + 1 + 20) = i" by simp
  have nxt: "?p + int (length m) + 1 + int (length n) + 1 + 20 =
          int (length (pre @ m @ Num 32 # n @ Num 0 # i))"
    by (simp add: assms(3))
  show ?thesis
    apply (subst parseTree_loop.simps)
    apply (simp only: Let_def sp md nl nm idb)
    apply (simp add: assms(3) ac_simps)
    done
qed


section \<open>Encoding and decoding tree entries\<close>

lemma to_scalars_ascii:
  "\<forall>c \<in> set a. c < 128 \<Longrightarrow> to_scalars (a @ s) = a @ to_scalars s"
proof (induction a)
  case Nil
  then show ?case by simp
next
  case (Cons c a)
  then have c: "\<not> isHighSurrogate c" "\<not> isLowSurrogate c"
    by (simp_all add: isHighSurrogate_def isLowSurrogate_def)
  show ?case
  proof (cases "a @ s")
    case Nil
    then show ?thesis using c by simp
  next
    case (Cons v r)
    have "to_scalars (c # v # r) = c # to_scalars (v # r)" using c by simp
    then show ?thesis using Cons Cons.IH Cons.prems
      by (metis Cons_eq_appendI list.set_intros(2))
  qed
qed

lemma encodeUTF8_ascii:
  assumes "\<forall>c \<in> set a. c < 128"
  shows "encodeUTF8 (a @ s) = map (\<lambda>b. Num (int b)) a @ encodeUTF8 s"
proof -
  have "concat (map utf8_bytes a) = a"
    using assms by (induction a) (simp_all add: utf8_bytes_def)
  then show ?thesis
    by (simp add: encodeUTF8_def to_scalars_ascii [OF assms])
qed

lemma hexchar_hexval: "isHexLower c \<Longrightarrow> hexchar (nat (hexval c)) = c"
  by (auto simp: isHexLower_def hexchar_def hexval_def)

lemma hexval_range: "isHexLower c \<Longrightarrow> 0 \<le> hexval c \<and> hexval c < 16"
  by (auto simp: isHexLower_def hexval_def)

lemma parseInt16_pair:
  assumes "isHexLower a" "isHexLower b"
  shows "parseInt16 [a, b] = Num (16 * hexval a + hexval b)"
proof -
  have w: "\<not> isWhiteSpace a" using assms(1) by (rule hex_not_white)
  have s: "a \<noteq> 45" "a \<noteq> 43" using assms(1) by (auto simp: isHexLower_def)
  have x: "b \<noteq> 120" "b \<noteq> 88" using assms(2) by (auto simp: isHexLower_def)
  have h: "isHexDigit a" "isHexDigit b" using assms by (auto simp: isHexLower_def isHexDigit_def)
  show ?thesis using w s x h by (simp add: parseInt16_def)
qed

lemma toString16_nat: "toString16 (Num (int n)) = hexdigits n"
  by simp

lemma toString16_pair:
  assumes "a < 16" "b < 16"
  shows "padStart2 (toString16 (Num (int (16 * a + b)))) = [hexchar a, hexchar b]"
proof -
  have one: "\<And>d. d < 16 \<Longrightarrow> hexdigits d = [hexchar d]"
    by (subst hexdigits.simps) simp
  show ?thesis
  proof (cases "a = 0")
    case True
    then show ?thesis
      unfolding toString16_nat using assms one [of b] by (simp add: padStart2_def hexchar_def)
  next
    case False
    then have "\<not> 16 * a + b < 16" by simp
    moreover have "(16 * a + b) div 16 = a" "(16 * a + b) mod 16 = b" using assms by simp_all
    ultimately have "hexdigits (16 * a + b) = hexdigits a @ [hexchar b]"
      by (subst hexdigits.simps) simp
    then show ?thesis
      unfolding toString16_nat using one [OF assms(1)] by (simp add: padStart2_def)
  qed
qed

lemma unpack_pack_pair:
  assumes "isHexLower a" "isHexLower b"
  shows "padStart2 (toString16 (parseInt16 [a, b])) = [a, b]"
proof -
  define x where "x = nat (hexval a)"
  define y where "y = nat (hexval b)"
  have x: "x < 16" "hexval a = int x"
    using hexval_range [OF assms(1)] unfolding x_def by linarith+
  have y: "y < 16" "hexval b = int y"
    using hexval_range [OF assms(2)] unfolding y_def by linarith+
  have "parseInt16 [a, b] = Num (int (16 * x + y))"
    using parseInt16_pair [OF assms] x(2) y(2) by simp
  then show ?thesis
    using toString16_pair [OF x(1) y(1)] hexchar_hexval [OF assms(1)] hexchar_hexval [OF assms(2)]
    by (simp add: x_def y_def)
qed

lemma unpackSha_packSha_even:
  "even (length s) \<Longrightarrow> list_all isHexLower s \<Longrightarrow>
   unpackSha (packSha s) = s \<and> 2 * length (packSha s) = length s"
proof (induction s rule: chunks2.induct)
  case 1
  then show ?case by (simp add: unpackSha_def packSha_def)
next
  case (2 a)
  then show ?case by simp
next
  case (3 a b r)
  then have ih: "unpackSha (packSha r) = r" "2 * length (packSha r) = length r"
    by simp_all
  from 3(3) have ab: "isHexLower a" "isHexLower b" by simp_all
  show ?case
    using ih unpack_pack_pair [OF ab] by (simp add: unpackSha_def packSha_def)
qed

lemma unpackSha_packSha: "isSha s \<Longrightarrow> unpackSha (packSha s) = s"
  using unpackSha_packSha_even [of s] by (simp add: isSha_def)

lemma length_packSha: "isSha s \<Longrightarrow> length (packSha s) = 20"
  using unpackSha_packSha_even [of s] by (simp add: isSha_def)

lemma set_insort_cmp: "set (insort_cmp c x ys) = insert x (set ys)"
  by (induction ys) auto

lemma set_sort_cmp: "set (sort_cmp c xs) = set xs"
  by (induction xs) (simp_all add: sort_cmp_def set_insort_cmp)

lemma length_insort_cmp: "length (insort_cmp c x ys) = Suc (length ys)"
  by (induction ys) auto

lemma length_sort_cmp: "length (sort_cmp c xs) = length xs"
  by (induction xs) (simp_all add: sort_cmp_def length_insort_cmp)

lemma entryType_modes:
  "entryType (js ''040000'') = js ''tree''" "entryType (js ''100644'') = js ''blob''"
  by (simp_all add: entryType_def startsWith_def js_def)

lemma arrayToString_ascii:
  "\<forall>c \<in> set a. c < 128 \<Longrightarrow> arrayToString (map (\<lambda>b. Num (int b)) a) = a"
  by (induction a) (simp_all add: arrayToString_def)

lemma treeEntry_form:
  "treeEntry item =
     map (\<lambda>b. Num (int b)) (if item_type item = js ''tree'' then js ''040000'' else js ''100644'') @
     Num 32 # encodeUTF8 (item_name item) @ Num 0 # packSha (item_id item)"
proof -
  have "encodeUTF8 ((m @ js '' '') @ item_name item) =
          map (\<lambda>b. Num (int b)) (m @ js '' '') @ encodeUTF8 (item_name item)"
    if "m = js ''040000'' \<or> m = js ''100644''" for m
    by (rule encodeUTF8_ascii) (use that in \<open>auto simp: js_def\<close>)
  then show ?thesis by (simp add: treeEntry_def Let_def js_def)
qed

lemma parse_entry:
  assumes "validItem item"
  shows "parseTree_loop (pre @ treeEntry item @ rest) (int (length pre)) acc =
         parseTree_loop (pre @ treeEntry item @ rest) (int (length (pre @ treeEntry item)))
           (acc @ [item])"
proof -
  define mode where "mode = (if item_type item = js ''tree'' then js ''040000'' else js ''100644'')"
  define m where "m = map (\<lambda>b. Num (int b)) mode"
  define n where "n = encodeUTF8 (item_name item)"
  define i where "i = packSha (item_id item)"
  from assms have ty: "item_type item = js ''blob'' \<or> item_type item = js ''tree''"
    and nm: "wellFormed (item_name item)" "0 \<notin> set (item_name item)"
            "take 1 (item_name item) \<noteq> [65279]"
    and sh: "isSha (item_id item)"
    by (simp_all add: validItem_def validName_def)
  have form: "treeEntry item = m @ Num 32 # n @ Num 0 # i"
    by (simp add: treeEntry_form m_def n_def i_def mode_def)
  have asc: "\<forall>c \<in> set mode. c < 128" by (auto simp: mode_def js_def)
  have m32: "Num 32 \<notin> set m" by (auto simp: m_def mode_def js_def)
  have n0: "Num 0 \<notin> set n" unfolding n_def by (rule encodeUTF8_no_zero [OF nm(2)])
  have li: "length i = 20" unfolding i_def by (rule length_packSha [OF sh])
  have "js ''blob'' \<noteq> js ''tree''" by (simp add: js_def)
  moreover have "arrayToString m = mode"
    unfolding m_def by (rule arrayToString_ascii [OF asc])
  ultimately have t: "entryType (arrayToString m) = item_type item"
    using ty by (auto simp: mode_def entryType_modes)
  have nd: "decodeUTF8 n = item_name item"
    unfolding n_def by (rule decodeUTF8_encodeUTF8 [OF nm(1) nm(3)])
  have idd: "unpackSha i = item_id item"
    unfolding i_def by (rule unpackSha_packSha [OF sh])
  have rec: "\<lparr>item_type = entryType (arrayToString m), item_name = decodeUTF8 n,
              item_id = unpackSha i\<rparr> = item"
    by (simp add: t nd idd)
  show ?thesis
    using parseTree_loop_entry [OF m32 n0 li, of pre rest acc]
    by (simp add: form rec)
qed

lemma parse_entries:
  "\<forall>item \<in> set its. validItem item \<Longrightarrow>
   parseTree_loop (pre @ concat (map treeEntry its)) (int (length pre)) acc = Some (acc @ its)"
proof (induction its arbitrary: pre acc)
  case Nil
  then show ?case using parseTree_loop_end [of pre acc] by simp
next
  case (Cons item its)
  then have v: "validItem item" and vs: "\<forall>x \<in> set its. validItem x" by simp_all
  have "parseTree_loop (pre @ treeEntry item @ concat (map treeEntry its)) (int (length pre)) acc =
        parseTree_loop ((pre @ treeEntry item) @ concat (map treeEntry its))
          (int (length (pre @ treeEntry item))) (acc @ [item])"
    using parse_entry [OF v, of pre "concat (map treeEntry its)" acc] by simp
  also have "\<dots> = Some ((acc @ [item]) @ its)"
    by (rule Cons.IH [OF vs])
  finally show ?case by simp
qed


text \<open>The loop of \<open>parseTree\<close> does not end on every content: on 21 bytes without a
  space and without a zero byte the position falls back to 20 on every round.\<close>

lemma no_space_step:
  "indexOf (replicate 21 (Num 97)) (Num 32) 20 = - 1"
  "indexOf (replicate 21 (Num 97)) (Num 0) 0 = - 1"
  "indexOf (replicate 21 (Num 97)) (Num 32) 0 = - 1"
  by (simp_all add: indexOf_def numeral_eq_Suc)

lemma stuck_at_20:
  "parseTree_loop content pos items = Some r \<Longrightarrow> content = replicate 21 (Num 97) \<Longrightarrow> pos = 20 \<Longrightarrow>
   False"
proof (induction rule: parseTree_loop.raw_induct [rotated 1, consumes 1])
  case (1 loop content pos items r)
  from 1(2) have "\<exists>items'. loop content 20 items' = Some r"
    unfolding 1(3) 1(4) by (simp add: no_space_step Let_def) blast
  then show False using 1(1) 1(3) by blast
qed

lemma parseTree_never_returns:
  "parseTree \<lparr>obj_type = js ''tree'', obj_content = Bytes (replicate 21 (Num 97)), obj_id = sha_a\<rparr> =
     None"
proof -
  have "parseTree_loop (replicate 21 (Num 97)) 0 [] =
        parseTree_loop (replicate 21 (Num 97)) 20
          [\<lparr>item_type = entryType (arrayToString (slice (replicate 21 (Num 97)) 0 (- 1))),
            item_name = decodeUTF8 (slice (replicate 21 (Num 97)) 0 (- 1)),
            item_id = unpackSha (slice (replicate 21 (Num 97)) 0 20)\<rparr>]"
    by (subst parseTree_loop.simps) (simp add: no_space_step Let_def)
  moreover have "parseTree_loop (replicate 21 (Num 97)) 20 its = None" for its
    using stuck_at_20 [of "replicate 21 (Num 97)" 20 its] by (cases "parseTree_loop (replicate 21 (Num 97)) 20 its") auto
  ultimately show ?thesis by (simp add: parseTree_def)
qed


section \<open>Resolving a branch, a tag or an id\<close>

lemma refs_git_master:
  "getRef refs_git (js ''refs/heads/'' @ js ''master'') = Some (Inr sha_a)"
  by (subst getRef.simps) (simp add: refs_git_def eval_defs)

lemma refs_git_no_head_v1:
  "getRef refs_git (js ''refs/heads/'' @ js ''v1'') =
     Some (Inl (UnknownRef (js ''refs/heads/v1'')))"
  by (subst getRef.simps) (simp add: refs_git_def eval_defs)

lemma refs_git_tag_v1:
  "getRef refs_git (js ''refs/tags/'' @ js ''v1'') = Some (Inr sha_b)"
  by (subst getRef.simps) (simp add: refs_git_def eval_defs)

lemma refs_git_no_head_packed:
  "getRef refs_git (js ''refs/heads/'' @ js ''packed'') =
     Some (Inl (UnknownRef (js ''refs/heads/packed'')))"
  by (subst getRef.simps) (simp add: refs_git_def eval_defs)

lemma refs_git_no_tag_packed:
  "getRef refs_git (js ''refs/tags/'' @ js ''packed'') =
     Some (Inl (UnknownRef (js ''refs/tags/packed'')))"
  by (subst getRef.simps) (simp add: refs_git_def eval_defs)

lemma names_not_sha:
  "\<not> isSha (js ''master'')" "\<not> isSha (js ''v1'')" "\<not> isSha (js ''packed'')"
  by (simp_all add: eval_defs)

lemma names_not_empty:
  "js ''master'' \<noteq> []" "js ''v1'' \<noteq> []" "js ''packed'' \<noteq> []"
  by (simp_all add: js_def)

text \<open>
  C5, as the code has it. A full id of 40 lower-case hex characters is returned
  unchanged, whatever the repository holds. For any other non-empty name
  \<open>refs/heads/<name>\<close> is resolved first and \<open>refs/tags/<name>\<close> second, and when
  both fail the call fails with "Could not find branch". The packed-ref table is not
  consulted.
\<close>

theorem getBranchCommit_lookup_order:
  "(isSha b \<longrightarrow> getBranchCommit g b = Some (Inr b)) \<and>
   (\<not> isSha b \<and> b \<noteq> [] \<and> getRef g (js ''refs/heads/'' @ b) = Some (Inr c) \<longrightarrow>
      getBranchCommit g b = Some (Inr c)) \<and>
   (\<not> isSha b \<and> b \<noteq> [] \<and> getRef g (js ''refs/heads/'' @ b) = Some (Inl e) \<and>
      getRef g (js ''refs/tags/'' @ b) = Some (Inr c) \<longrightarrow>
      getBranchCommit g b = Some (Inr c)) \<and>
   (\<not> isSha b \<and> b \<noteq> [] \<and> getRef g (js ''refs/heads/'' @ b) = Some (Inl e) \<and>
      getRef g (js ''refs/tags/'' @ b) = Some (Inl e') \<longrightarrow>
      getBranchCommit g b = Some (Inl (CouldNotFindBranch b)))"
  by (subst getBranchCommit.simps, simp)+

theorem getBranchCommit_lookup_order_witness:
  "getBranchCommit refs_git sha_a = Some (Inr sha_a) \<and>
   getBranchCommit refs_git (js ''master'') = Some (Inr sha_a) \<and>
   getBranchCommit refs_git (js ''v1'') = Some (Inr sha_b) \<and>
   getBranchCommit refs_git (js ''packed'') = Some (Inl (CouldNotFindBranch (js ''packed'')))"
  using getBranchCommit_lookup_order [of sha_a refs_git]
    getBranchCommit_lookup_order [of "js ''master''" refs_git sha_a]
    getBranchCommit_lookup_order [of "js ''v1''" refs_git sha_b "UnknownRef (js ''refs/heads/v1'')"]
    getBranchCommit_lookup_order [of "js ''packed''" refs_git _ "UnknownRef (js ''refs/heads/packed'')"
       "UnknownRef (js ''refs/tags/packed'')"]
    isSha_a names_not_sha names_not_empty refs_git_master refs_git_no_head_v1 refs_git_tag_v1
    refs_git_no_head_packed refs_git_no_tag_packed
  by simp

text \<open>
  C5 as stated fails: a branch that the packed-ref table lists, and that has no loose
  ref file, is not found.
\<close>

theorem getBranchCommit_ignores_packed_refs:
  "packedName (sha_c @ js '' refs/heads/packed'') = Some (js ''refs/heads/packed'') \<and>
   getBranchCommit refs_git (js ''packed'') = Some (Inl (CouldNotFindBranch (js ''packed'')))"
proof -
  have "getBranchCommit refs_git (js ''packed'') = Some (Inl (CouldNotFindBranch (js ''packed'')))"
    by (subst getBranchCommit.simps)
       (simp add: names_not_sha names_not_empty refs_git_no_head_packed refs_git_no_tag_packed)
  moreover have "packedName (sha_c @ js '' refs/heads/packed'') = Some (js ''refs/heads/packed'')"
    by (simp add: packedName_def split_def eval_defs)
  ultimately show ?thesis by simp
qed

section \<open>The stable sort\<close>

lemma sorted_insort_cmp:
  assumes tot: "\<And>a b. a \<in> insert x (set ys) \<Longrightarrow> b \<in> insert x (set ys) \<Longrightarrow> c a b \<le> 0 \<or> c b a \<le> 0"
    and trans: "\<And>a b d. a \<in> insert x (set ys) \<Longrightarrow> b \<in> insert x (set ys) \<Longrightarrow>
                  d \<in> insert x (set ys) \<Longrightarrow> c a b \<le> 0 \<Longrightarrow> c b d \<le> 0 \<Longrightarrow> c a d \<le> 0"
    and srt: "sorted_wrt (\<lambda>a b. c a b \<le> 0) ys"
  shows "sorted_wrt (\<lambda>a b. c a b \<le> 0) (insort_cmp c x ys)"
  using assms
proof (induction ys)
  case Nil
  show ?case by simp
next
  case (Cons y ys)
  have srt: "sorted_wrt (\<lambda>a b. c a b \<le> 0) ys" and yz: "\<And>z. z \<in> set ys \<Longrightarrow> c y z \<le> 0"
    using Cons.prems(3) by simp_all
  show ?case
  proof (cases "c x y \<le> 0")
    case True
    have "c x z \<le> 0" if "z \<in> set ys" for z
    proof (rule Cons.prems(2) [of x y z])
      show "x \<in> insert x (set (y # ys))" by simp
      show "y \<in> insert x (set (y # ys))" by simp
      show "z \<in> insert x (set (y # ys))" using that by simp
      show "c x y \<le> 0" by (rule True)
      show "c y z \<le> 0" using that by (rule yz)
    qed
    then show ?thesis using True Cons.prems(3) by simp
  next
    case False
    have "c x y \<le> 0 \<or> c y x \<le> 0"
      by (rule Cons.prems(1)) simp_all
    with False have yx: "c y x \<le> 0" by simp
    have ih: "sorted_wrt (\<lambda>a b. c a b \<le> 0) (insort_cmp c x ys)"
    proof (rule Cons.IH)
      show "c a b \<le> 0 \<or> c b a \<le> 0"
        if "a \<in> insert x (set ys)" "b \<in> insert x (set ys)" for a b
        by (rule Cons.prems(1)) (use that in auto)
      show "c a d \<le> 0"
        if "a \<in> insert x (set ys)" "b \<in> insert x (set ys)" "d \<in> insert x (set ys)"
           "c a b \<le> 0" "c b d \<le> 0" for a b d
        by (rule Cons.prems(2) [of a b d]) (use that in auto)
      show "sorted_wrt (\<lambda>a b. c a b \<le> 0) ys" by (rule srt)
    qed
    have "c y z \<le> 0" if "z \<in> set (insort_cmp c x ys)" for z
      using that yx yz by (auto simp: set_insort_cmp)
    then show ?thesis using False ih by simp
  qed
qed

lemma sorted_sort_cmp:
  assumes tot: "\<And>a b. a \<in> set xs \<Longrightarrow> b \<in> set xs \<Longrightarrow> c a b \<le> 0 \<or> c b a \<le> 0"
    and trans: "\<And>a b d. a \<in> set xs \<Longrightarrow> b \<in> set xs \<Longrightarrow> d \<in> set xs \<Longrightarrow>
                  c a b \<le> 0 \<Longrightarrow> c b d \<le> 0 \<Longrightarrow> c a d \<le> 0"
  shows "sorted_wrt (\<lambda>a b. c a b \<le> 0) (sort_cmp c xs)"
  using assms
proof (induction xs)
  case Nil
  show ?case by (simp add: sort_cmp_def)
next
  case (Cons x xs)
  have ih: "sorted_wrt (\<lambda>a b. c a b \<le> 0) (sort_cmp c xs)"
  proof (rule Cons.IH)
    show "c a b \<le> 0 \<or> c b a \<le> 0" if "a \<in> set xs" "b \<in> set xs" for a b
      by (rule Cons.prems(1)) (use that in auto)
    show "c a d \<le> 0"
      if "a \<in> set xs" "b \<in> set xs" "d \<in> set xs" "c a b \<le> 0" "c b d \<le> 0" for a b d
      by (rule Cons.prems(2) [of a b d]) (use that in auto)
  qed
  have "sorted_wrt (\<lambda>a b. c a b \<le> 0) (insort_cmp c x (sort_cmp c xs))"
  proof (rule sorted_insort_cmp)
    show "c a b \<le> 0 \<or> c b a \<le> 0"
      if "a \<in> insert x (set (sort_cmp c xs))" "b \<in> insert x (set (sort_cmp c xs))" for a b
      by (rule Cons.prems(1)) (use that in \<open>auto simp: set_sort_cmp\<close>)
    show "c a d \<le> 0"
      if "a \<in> insert x (set (sort_cmp c xs))" "b \<in> insert x (set (sort_cmp c xs))"
         "d \<in> insert x (set (sort_cmp c xs))" "c a b \<le> 0" "c b d \<le> 0" for a b d
      by (rule Cons.prems(2) [of a b d]) (use that in \<open>auto simp: set_sort_cmp\<close>)
    show "sorted_wrt (\<lambda>a b. c a b \<le> 0) (sort_cmp c xs)" by (rule ih)
  qed
  then show ?case by (simp add: sort_cmp_def)
qed

lemma distinct_insort_cmp: "distinct (insort_cmp c x ys) \<longleftrightarrow> x \<notin> set ys \<and> distinct ys"
  by (induction ys) (auto simp: set_insort_cmp)

lemma distinct_sort_cmp: "distinct (sort_cmp c xs) \<longleftrightarrow> distinct xs"
proof (induction xs)
  case Nil
  show ?case by (simp add: sort_cmp_def)
next
  case (Cons x xs)
  have "sort_cmp c (x # xs) = insort_cmp c x (sort_cmp c xs)" by (simp add: sort_cmp_def)
  then show ?case by (simp add: distinct_insort_cmp set_sort_cmp Cons)
qed

lemma sorted_wrt_unique:
  assumes "sorted_wrt R as" "sorted_wrt R bs" "distinct as" "distinct bs" "set as = set bs"
    and anti: "\<And>a b. a \<in> set as \<Longrightarrow> b \<in> set as \<Longrightarrow> R a b \<Longrightarrow> R b a \<Longrightarrow> a = b"
  shows "as = bs"
  using assms
proof (induction as arbitrary: bs)
  case Nil
  from Nil(5) show ?case by simp
next
  case (Cons a as)
  from Cons.prems(5) obtain b bs' where bs: "bs = b # bs'" by (cases bs) auto
  have ab: "a = b"
  proof (rule ccontr)
    assume ne: "a \<noteq> b"
    with Cons.prems(5) bs have m: "a \<in> set bs'" "b \<in> set as" by auto
    have "R b a" using Cons.prems(2) bs m(1) by simp
    moreover have "R a b" using Cons.prems(1) m(2) by simp
    ultimately have "a = b" using m(2) by (intro Cons.prems(6)) simp_all
    with ne show False by simp
  qed
  have st: "set as = set bs'" using Cons.prems(3,4,5) bs ab by auto
  have "as = bs'"
  proof (rule Cons.IH)
    show "sorted_wrt R as" using Cons.prems(1) by simp
    show "sorted_wrt R bs'" using Cons.prems(2) bs by simp
    show "distinct as" using Cons.prems(3) by simp
    show "distinct bs'" using Cons.prems(4) bs by simp
    show "set as = set bs'" by (rule st)
    show "u = v" if "u \<in> set as" "v \<in> set as" "R u v" "R v u" for u v
      by (rule Cons.prems(6)) (use that in simp_all)
  qed
  with ab bs show ?case by simp
qed


lemma unitCompare_total: "unitCompare a b \<le> 0 \<or> unitCompare b a \<le> 0"
  by (induction a b rule: unitCompare.induct) auto

lemma unitCompare_antisym: "unitCompare a b \<le> 0 \<Longrightarrow> unitCompare b a \<le> 0 \<Longrightarrow> a = b"
  by (induction a b rule: unitCompare.induct) (auto split: if_splits)

lemma unitCompare_trans:
  "unitCompare a b \<le> 0 \<Longrightarrow> unitCompare b d \<le> 0 \<Longrightarrow> unitCompare a d \<le> 0"
proof (induction a b arbitrary: d rule: unitCompare.induct)
  case 1
  from 1(2) show ?case by simp
next
  case (2 b bs)
  show ?case by (cases d) simp_all
next
  case (3 a as)
  from 3(1) show ?case by simp
next
  case (4 a as b bs)
  from 4(3) obtain e es where d: "d = e # es" by (cases d) auto
  from 4(2) have ab: "a < b \<or> (a = b \<and> unitCompare as bs \<le> 0)"
    by (auto split: if_splits)
  from 4(3) d have be: "b < e \<or> (b = e \<and> unitCompare bs es \<le> 0)"
    by (auto split: if_splits)
  show ?case
  proof (cases "a < e")
    case True
    then show ?thesis by (simp add: d)
  next
    case False
    with ab be have eq: "a = b" "b = e" and c1: "unitCompare as bs \<le> 0"
      and c2: "unitCompare bs es \<le> 0" by auto
    from eq have n: "\<not> a < b" "\<not> b < a" by simp_all
    have "unitCompare as es \<le> 0" by (rule "4.IH" [OF n c1 c2])
    then show ?thesis using eq by (simp add: d)
  qed
qed


section \<open>Looking a path up in a tree\<close>

lemma path_b: "filter (\<lambda>part. part \<noteq> []) (split 47 (js ''b'')) = [js ''b'']"
  by (simp add: split_def js_def)

lemma tree_file:
  "readUnpackedObject tree_git sha_a =
     Inr \<lparr>obj_type = js ''tree'',
          obj_content = Bytes (stringToArray (js ''100644'') @ Num 32 # stringToArray (js ''b'') @
                               Num 0 # replicate 20 (Num 187)),
          obj_id = sha_a\<rparr>"
  by (simp add: readUnpackedObject_def objectPath_def tree_git_def eval_defs inflate_def
      indexOf_def slice_def stringToArray_def Let_def)

lemma blob_file: "readUnpackedObject tree_git sha_b = Inr blob_b"
  by (simp add: readUnpackedObject_def objectPath_def tree_git_def eval_defs inflate_def
      indexOf_def slice_def stringToArray_def Let_def blob_b_def)


lemma hexdigits_187: "hexdigits 187 = js ''bb''"
  by (subst hexdigits.simps, simp, subst hexdigits.simps, simp add: hexchar_def js_def)

lemma replicate_20:
  "replicate 20 x = [x, x, x, x, x, x, x, x, x, x, x, x, x, x, x, x, x, x, x, x]"
  by (simp add: numeral_eq_Suc)

lemma unpack_bb: "unpackSha (replicate 20 (Num 187)) = sha_b"
  by (simp add: replicate_20 unpackSha_def padStart2_def hexdigits_187 sha_b_def js_def)

lemma decode_b: "decodeUTF8 (stringToArray (js ''b'')) = js ''b''"
  by (simp add: decodeUTF8_def stringToArray_def utf16_units_def js_def)

lemma tree_bytes_parse:
  "parseTree_loop (stringToArray (js ''100644'') @ Num 32 # stringToArray (js ''b'') @
                   Num 0 # replicate 20 (Num 187)) 0 [] = Some [item_b]"
proof -
  have a: "Num 32 \<notin> set (stringToArray (js ''100644''))"
    and b: "Num 0 \<notin> set (stringToArray (js ''b''))"
    by (simp_all add: stringToArray_def js_def)
  have t: "entryType (arrayToString (stringToArray (js ''100644''))) = js ''blob''"
    by (simp add: entryType_def arrayToString_def stringToArray_def startsWith_def js_def)
  show ?thesis
    using parseTree_loop_entry [OF a b, of "replicate 20 (Num 187)" "[]" "[]" "[]"]
      parseTree_loop_end [of "stringToArray (js ''100644'') @ Num 32 # stringToArray (js ''b'') @
                   Num 0 # replicate 20 (Num 187)"]
    by (simp add: t decode_b unpack_bb item_b_def)
qed

lemma decoded_again:
  "parseTree_loop [Obj] 0 [] =
     Some [\<lparr>item_type = js ''tree'', item_name = [], item_id = js ''[object Object]''\<rparr>]"
  apply (subst parseTree_loop.simps)
  apply (simp add: indexOf_def slice_def Let_def arrayToString_def decodeUTF8_def unpackSha_def
      padStart2_def entryType_def startsWith_def js_def)
  apply (subst parseTree_loop.simps)
  apply simp
  done


lemma sha_a_not_b: "sha_a \<noteq> sha_b" "sha_b \<noteq> sha_a"
  by (simp_all add: sha_a_def sha_b_def js_def)

lemma tree_git_fields:
  "objectCache tree_git = Map.empty" "packedIndex tree_git = []"
  by (simp_all add: tree_git_def new_git_def)

lemma tree_types: "js ''tree'' \<noteq> js ''blob''" "js ''blob'' \<noteq> js ''tree''"
  by (simp_all add: js_def)

lemma first_read_tree:
  "readUnknownObject tree_git sha_a =
     Some (Inr \<lparr>obj_type = js ''tree'', obj_content = Items [item_b], obj_id = sha_a\<rparr>,
           tree_git\<lparr>objectCache :=
             [sha_a \<mapsto> \<lparr>obj_type = js ''tree'', obj_content = Items [item_b], obj_id = sha_a\<rparr>]\<rparr>)"
  by (simp add: readUnknownObject_def readObject_def tree_git_fields tree_file decodeContent_def
      parseTree_def tree_bytes_parse tree_types)

lemma readUnpackedObject_cache:
  "readUnpackedObject (g\<lparr>objectCache := c\<rparr>) ident = readUnpackedObject g ident"
  by (simp add: readUnpackedObject_def readFile_def)

lemma first_read_blob:
  "readUnknownObject
     (tree_git\<lparr>objectCache :=
        [sha_a \<mapsto> \<lparr>obj_type = js ''tree'', obj_content = Items [item_b], obj_id = sha_a\<rparr>]\<rparr>)
     sha_b = Some (Inr blob_b, tree_git_read)"
  by (simp add: readUnknownObject_def readObject_def tree_git_fields sha_a_not_b
      readUnpackedObject_cache blob_file decodeContent_def parseBlob_def blob_b_def
      tree_git_read_def)

lemma item_b_fields: "item_name item_b = js ''b''" "item_id item_b = sha_b"
  by (simp_all add: item_b_def)

lemma first_lookup:
  "readTreeItem tree_git sha_a (js ''b'') = Some (Inr blob_b, tree_git_read)"
  by (simp add: readTreeItem_def path_b first_read_tree first_read_blob item_b_fields)

lemma second_read_tree:
  "readUnknownObject tree_git_read sha_a =
     Some (Inr \<lparr>obj_type = js ''tree'',
                obj_content = Items [\<lparr>item_type = js ''tree'', item_name = [],
                                      item_id = js ''[object Object]''\<rparr>],
                obj_id = sha_a\<rparr>,
           tree_git_read\<lparr>objectCache := (objectCache tree_git_read)
             (sha_a \<mapsto> \<lparr>obj_type = js ''tree'',
                obj_content = Items [\<lparr>item_type = js ''tree'', item_name = [],
                                      item_id = js ''[object Object]''\<rparr>],
                obj_id = sha_a\<rparr>)\<rparr>)"
  by (simp add: readUnknownObject_def readObject_def tree_git_read_def sha_a_not_b
      decodeContent_def parseTree_def decoded_again tree_types)

lemma readTreeItemPath_steps:
  "readTreeItemPath g tree [] = readUnknownObject g tree"
  "readUnknownObject g tree = Some (Inl e, g1) \<Longrightarrow>
     readTreeItemPath g tree (p # path) = Some (Inl e, g1)"
  "readUnknownObject g tree = Some (Inr treeObject, g1) \<Longrightarrow> obj_type treeObject \<noteq> js ''tree'' \<Longrightarrow>
     readTreeItemPath g tree (p # path) = Some (Inl (NotATree tree), g1)"
  "readUnknownObject g tree = Some (Inr treeObject, g1) \<Longrightarrow> obj_type treeObject = js ''tree'' \<Longrightarrow>
     find (\<lambda>item. item_name item = p) (entries (obj_content treeObject)) = None \<Longrightarrow>
     readTreeItemPath g tree (p # path) = Some (Inl (NoObjectNamed tree p), g1)"
  "readUnknownObject g tree = Some (Inr treeObject, g1) \<Longrightarrow> obj_type treeObject = js ''tree'' \<Longrightarrow>
     find (\<lambda>item. item_name item = p) (entries (obj_content treeObject)) = Some file \<Longrightarrow>
     readTreeItemPath g tree (p # path) = readTreeItemPath g1 (item_id file) path"
  by simp_all

text \<open>On a repository that has not read the tree before, the stored records are
  decoded as they were written, and the lookup of a name goes on with the id of the
  record of that name; an object that is returned carries the id it was asked for.\<close>

lemma decimal_digits: "c \<in> set (decimal n) \<Longrightarrow> 48 \<le> c \<and> c \<le> 57"
proof (induction n arbitrary: c rule: decimal.induct)
  case (1 n)
  show ?case
  proof (cases "n < 10")
    case True
    with 1(2) show ?thesis by (subst (asm) decimal.simps) simp
  next
    case False
    from 1(2) have "c \<in> set (decimal (n div 10)) \<or> c = 48 + n mod 10"
      by (subst (asm) decimal.simps) (auto simp: False)
    then show ?thesis
    proof
      assume "c \<in> set (decimal (n div 10))"
      then show ?thesis by (rule "1.IH" [OF False])
    next
      assume c: "c = 48 + n mod 10"
      have "n mod 10 < 10" by simp
      then show ?thesis unfolding c by linarith
    qed
  qed
qed

lemma readUnpackedObject_tree:
  assumes stored: "files (zeroPage g) (root g @ js ''/'' @ objectPath tree) =
                   Some (js ''tree '' @ decimal n @ [0] @ payload)"
  shows "readUnpackedObject g tree =
           Inr \<lparr>obj_type = js ''tree'',
                obj_content = Bytes (map (\<lambda>c. Num (int (c mod 256))) payload),
                obj_id = tree\<rparr>"
proof -
  let ?f = "\<lambda>c. Num (int (c mod 256))"
  let ?d = "map ?f (js ''tree '' @ decimal n @ [0] @ payload)"
  let ?h = "map ?f (js ''tree '' @ decimal n)"
  have rd: "readFile g (objectPath tree) = Inr ?d"
    by (simp add: readFile_def stored)
  have d: "?d = [] @ ?h @ Num 0 # map ?f payload" by simp
  have pos: "c mod 256 \<noteq> 0" if "c \<in> set (js ''tree '' @ decimal n)" for c
  proof -
    from that have "c \<in> set (js ''tree '') \<or> (48 \<le> c \<and> c \<le> 57)"
      using decimal_digits by auto
    then have "0 < c \<and> c < 256" by (auto simp: js_def)
    then show ?thesis by simp
  qed
  have nz: "Num 0 \<notin> set ?h"
  proof
    assume "Num 0 \<in> set ?h"
    then have "Num 0 \<in> ?f ` set (js ''tree '' @ decimal n)" by (simp only: set_map)
    then obtain c where "c \<in> set (js ''tree '' @ decimal n)" "Num 0 = ?f c" by (rule imageE)
    then show False using pos [of c] by simp
  qed
  have ni: "indexOf ?d (Num 0) 0 = int (length ?h)"
    unfolding d using indexOf_at [OF nz, of 0 "[]" "map ?f payload"] by simp
  have sp: "indexOf ?d (Num 32) 0 = 4"
    by (simp add: indexOf_def js_def)
  have ty: "arrayToString (slice ?d 0 4) = js ''tree''"
    by (simp add: slice_def arrayToString_def js_def)
  have "slice ((?h @ [Num 0]) @ map ?f payload @ []) (int (length ?h) + 1) (int (length ?d)) =
          map ?f payload"
    by (rule slice_mid) simp_all
  then have ct: "slice ?d (int (length ?h) + 1) (int (length ?d)) = map ?f payload"
    by simp
  show ?thesis
    unfolding readUnpackedObject_def rd inflate_def Let_def
    by (simp only: sum.case ni sp ty ct)
qed


lemma readUnknownObject_fresh_tree:
  assumes fresh: "objectCache g tree = None" "tree \<notin> set (packedIndex g)"
    and stored: "files (zeroPage g) (root g @ js ''/'' @ objectPath tree) =
                   Some (js ''tree '' @ decimal n @ [0] @ payload)"
    and bytes: "map (\<lambda>c. Num (int (c mod 256))) payload = concat (map treeEntry its)"
    and valid: "\<forall>item \<in> set its. validItem item"
  shows "readUnknownObject g tree =
           Some (Inr \<lparr>obj_type = js ''tree'', obj_content = Items its, obj_id = tree\<rparr>,
                 g\<lparr>objectCache := (objectCache g)
                     (tree \<mapsto> \<lparr>obj_type = js ''tree'', obj_content = Items its, obj_id = tree\<rparr>)\<rparr>)"
proof -
  have "parseTree_loop ([] @ concat (map treeEntry its)) (int (length ([] :: jsval list))) [] =
          Some ([] @ its)"
    by (rule parse_entries [OF valid])
  then have p: "parseTree_loop (concat (map treeEntry its)) 0 [] = Some its" by simp
  show ?thesis
    by (simp add: readUnknownObject_def readObject_def fresh readUnpackedObject_tree [OF stored]
        bytes decodeContent_def parseTree_def p tree_types)
qed

lemma readTreeItem_fresh_entry:
  assumes fresh: "objectCache g tree = None" "tree \<notin> set (packedIndex g)"
    and stored: "files (zeroPage g) (root g @ js ''/'' @ objectPath tree) =
                   Some (js ''tree '' @ decimal n @ [0] @ payload)"
    and bytes: "map (\<lambda>c. Num (int (c mod 256))) payload = concat (map treeEntry its)"
    and valid: "\<forall>item \<in> set its. validItem item"
    and entry: "find (\<lambda>item. item_name item = p) its = Some file"
  shows "readTreeItemPath g tree [p] =
           readUnknownObject
             (g\<lparr>objectCache := (objectCache g)
                 (tree \<mapsto> \<lparr>obj_type = js ''tree'', obj_content = Items its, obj_id = tree\<rparr>)\<rparr>)
             (item_id file)"
  by (simp add: readUnknownObject_fresh_tree [OF fresh stored bytes valid] entry)

lemma readUnknownObject_id:
  assumes "\<forall>k object. objectCache g k = Some object \<longrightarrow> obj_id object = k"
    and "readUnknownObject g ident = Some (Inr object, g1)"
  shows "obj_id object = ident"
proof (cases "objectCache g ident")
  case None
  with assms(2) show ?thesis
    by (auto simp: readUnknownObject_def readObject_def readUnpackedObject_def
        readPackedObject_def Let_def split: sum.splits option.splits if_splits)
next
  case (Some cached)
  with assms(1) have "obj_id cached = ident" by simp
  with Some assms(2) show ?thesis
    by (auto simp: readUnknownObject_def readObject_def split: option.splits)
qed


text \<open>
  C6. The lookup works on a repository whose cache is empty: "b" under the tree
  \<open>sha_a\<close> gives the blob whose id is the id of the stored entry. The same lookup on
  the repository as the first one left it fails with "has no object named", although
  the stored tree still has the entry: \<open>readUnknownObject\<close> has put the decoded entry
  list into the cached tree object, and \<open>readObject\<close> hands that object back to be
  decoded once more, as if the entry list were the bytes of the payload.
\<close>

theorem readTreeItem_second_lookup_fails:
  "readTreeItem tree_git sha_a (js ''b'') = Some (Inr blob_b, tree_git_read) \<and>
   obj_id blob_b = item_id item_b \<and>
   map_option fst (readTreeItem tree_git_read sha_a (js ''b'')) =
     Some (Inl (NoObjectNamed sha_a (js ''b'')))"
proof -
  have "js ''b'' \<noteq> []" by (simp add: js_def)
  then have "map_option fst (readTreeItem tree_git_read sha_a (js ''b'')) =
     Some (Inl (NoObjectNamed sha_a (js ''b'')))"
    by (simp add: readTreeItem_def path_b second_read_tree)
  then show ?thesis
    by (simp add: first_lookup blob_b_def item_b_def)
qed


section \<open>The order of the records that writeTree writes\<close>

lemma example_names_differ:
  "\<forall>a \<in> set [item_dir, item_foo, item_a]. \<forall>b \<in> set [item_dir, item_foo, item_a].
     sortName a = sortName b \<longrightarrow> a = b"
  by (simp add: item_defs sortName_def js_def)

lemma example_sorted:
  "sortedItems unitCompare [item_dir, item_foo, item_a] = [item_a, item_foo, item_dir]"
  by (simp add: sortedItems_def sort_cmp_def sortName_def item_defs js_def)

text \<open>
  C3, as the code has it. \<open>writeTree\<close> sorts the entries with \<open>localeCompare\<close> on the
  name, with \<open>/\<close> appended to the name of an entry of kind tree. Whenever
  \<open>localeCompare\<close> orders the sort names of the entries totally (any two are
  comparable, the order is transitive, and only an entry itself compares as equal both
  ways), the records are written in that order, and two lists that hold the same
  entries in different input orders give the same bytes, the same id and the same store.
  The order is the one of the platform's collation, not the order of the bytes.
\<close>

theorem writeTree_order_independent:
  assumes tot: "\<forall>a \<in> set xs. \<forall>b \<in> set xs.
      localeCompare (sortName a) (sortName b) \<le> 0 \<or> localeCompare (sortName b) (sortName a) \<le> 0"
    and trans: "\<forall>a \<in> set xs. \<forall>b \<in> set xs. \<forall>d \<in> set xs.
      localeCompare (sortName a) (sortName b) \<le> 0 \<and> localeCompare (sortName b) (sortName d) \<le> 0 \<longrightarrow>
      localeCompare (sortName a) (sortName d) \<le> 0"
    and anti: "\<forall>a \<in> set xs. \<forall>b \<in> set xs.
      localeCompare (sortName a) (sortName b) \<le> 0 \<and> localeCompare (sortName b) (sortName a) \<le> 0 \<longrightarrow>
      a = b"
    and dist: "distinct xs" "distinct ys" and same: "set ys = set xs"
  shows "sorted_wrt (\<lambda>a b. localeCompare (sortName a) (sortName b) \<le> 0)
           (sortedItems localeCompare xs) \<and>
         sortedItems localeCompare ys = sortedItems localeCompare xs \<and>
         treeContent localeCompare ys = treeContent localeCompare xs \<and>
         writeTree localeCompare g ys = writeTree localeCompare g xs"
proof -
  let ?c = "\<lambda>a b. localeCompare (sortName a) (sortName b)"
  have sx: "sorted_wrt (\<lambda>a b. ?c a b \<le> 0) (sort_cmp ?c xs)"
  proof (rule sorted_sort_cmp)
    show "?c a b \<le> 0 \<or> ?c b a \<le> 0" if "a \<in> set xs" "b \<in> set xs" for a b
      using tot that by blast
    show "?c a d \<le> 0" if "a \<in> set xs" "b \<in> set xs" "d \<in> set xs" "?c a b \<le> 0" "?c b d \<le> 0"
      for a b d
      using trans that by blast
  qed
  have sy: "sorted_wrt (\<lambda>a b. ?c a b \<le> 0) (sort_cmp ?c ys)"
  proof (rule sorted_sort_cmp)
    show "?c a b \<le> 0 \<or> ?c b a \<le> 0" if "a \<in> set ys" "b \<in> set ys" for a b
      using tot that same by blast
    show "?c a d \<le> 0" if "a \<in> set ys" "b \<in> set ys" "d \<in> set ys" "?c a b \<le> 0" "?c b d \<le> 0"
      for a b d
      using trans that same by blast
  qed
  have eq: "sort_cmp ?c ys = sort_cmp ?c xs"
  proof (rule sorted_wrt_unique [OF sy sx])
    show "distinct (sort_cmp ?c ys)" using dist(2) by (simp add: distinct_sort_cmp)
    show "distinct (sort_cmp ?c xs)" using dist(1) by (simp add: distinct_sort_cmp)
    show "set (sort_cmp ?c ys) = set (sort_cmp ?c xs)" using same by (simp add: set_sort_cmp)
    show "a = b"
      if "a \<in> set (sort_cmp ?c ys)" "b \<in> set (sort_cmp ?c ys)" "?c a b \<le> 0" "?c b a \<le> 0"
      for a b
    proof -
      from that(1,2) same have "a \<in> set xs" "b \<in> set xs" by (simp_all add: set_sort_cmp)
      with anti that(3,4) show ?thesis by blast
    qed
  qed
  then have "sortedItems localeCompare ys = sortedItems localeCompare xs"
    by (simp add: sortedItems_def)
  then show ?thesis using sx by (simp add: sortedItems_def treeContent_def writeTree_def)
qed


theorem writeTree_order_independent_witness:
  "sortedItems unitCompare [item_dir, item_foo, item_a] = [item_a, item_foo, item_dir] \<and>
   sortedItems unitCompare [item_a, item_foo, item_dir] = [item_a, item_foo, item_dir] \<and>
   treeContent unitCompare [item_a, item_foo, item_dir] =
     treeContent unitCompare [item_dir, item_foo, item_a] \<and>
   writeTree unitCompare empty_git [item_a, item_foo, item_dir] =
     writeTree unitCompare empty_git [item_dir, item_foo, item_a]"
proof -
  let ?xs = "[item_dir, item_foo, item_a]" and ?ys = "[item_a, item_foo, item_dir]"
  have tot: "\<forall>a \<in> set ?xs. \<forall>b \<in> set ?xs.
      unitCompare (sortName a) (sortName b) \<le> 0 \<or> unitCompare (sortName b) (sortName a) \<le> 0"
    using unitCompare_total by blast
  have trans: "\<forall>a \<in> set ?xs. \<forall>b \<in> set ?xs. \<forall>d \<in> set ?xs.
      unitCompare (sortName a) (sortName b) \<le> 0 \<and> unitCompare (sortName b) (sortName d) \<le> 0 \<longrightarrow>
      unitCompare (sortName a) (sortName d) \<le> 0"
    using unitCompare_trans by blast
  have anti: "\<forall>a \<in> set ?xs. \<forall>b \<in> set ?xs.
      unitCompare (sortName a) (sortName b) \<le> 0 \<and> unitCompare (sortName b) (sortName a) \<le> 0 \<longrightarrow>
      a = b"
    using unitCompare_antisym example_names_differ by blast
  have d1: "distinct ?xs" and d2: "distinct ?ys"
    by (simp_all add: item_defs js_def)
  have st: "set ?ys = set ?xs" by auto
  show ?thesis
    using writeTree_order_independent [OF tot trans anti d1 d2 st, of empty_git] example_sorted
    by simp
qed

text \<open>
  C3 as stated fails: the collation puts "a" before "B", so the record of the file "a"
  is written before the record of the file "B", while the byte 66 of "B" is smaller than
  the byte 97 of "a".
\<close>

theorem writeTree_not_in_byte_order:
  "sortedItems letterCompare [item_B, item_a] = [item_a, item_B] \<and>
   \<not> sorted_wrt (\<lambda>a b. unitCompare (sortName a) (sortName b) \<le> 0) [item_a, item_B]"
  by (simp add: sortedItems_def sort_cmp_def sortName_def letterCompare_def foldCase_def
      item_defs js_def)

section \<open>Decoding what writeTree encodes\<close>

lemma example_valid: "validItem item_a" "validItem item_b" "validItem item_foo" "validItem item_dir"
  by (simp_all add: validItem_def validName_def item_defs eval_defs isHighSurrogate_def
      isLowSurrogate_def)

lemma example_letter_sorted: "sortedItems letterCompare [item_b, item_a] = [item_a, item_b]"
  by (simp add: sortedItems_def sort_cmp_def sortName_def letterCompare_def foldCase_def
      item_defs js_def)

lemma example_dir_sorted: "sortedItems unitCompare [item_dir, item_foo] = [item_foo, item_dir]"
  by (simp add: sortedItems_def sort_cmp_def sortName_def item_defs js_def)

text \<open>
  C4, as the code has it. For every list of entries of kind blob or tree whose names
  are valid and whose ids are 40 lower-case hex characters, \<open>parseTree\<close> applied to
  the payload that \<open>writeTree\<close> builds returns the entries in the order \<open>writeTree\<close>
  sorted them into, each with its name, kind and id; the sorted list holds the same
  entries as the input.
\<close>

theorem parseTree_writeTree_roundtrip:
  "\<forall>item \<in> set items. validItem item \<Longrightarrow>
   parseTree \<lparr>obj_type = js ''tree'', obj_content = Bytes (treeContent localeCompare items),
              obj_id = ident\<rparr> = Some (sortedItems localeCompare items) \<and>
   set (sortedItems localeCompare items) = set items \<and>
   length (sortedItems localeCompare items) = length items"
proof -
  assume v: "\<forall>item \<in> set items. validItem item"
  have s: "set (sortedItems localeCompare items) = set items"
    by (simp add: sortedItems_def set_sort_cmp)
  have l: "length (sortedItems localeCompare items) = length items"
    by (simp add: sortedItems_def length_sort_cmp)
  have "parseTree_loop ([] @ concat (map treeEntry (sortedItems localeCompare items)))
          (int (length ([] :: jsval list))) [] = Some ([] @ sortedItems localeCompare items)"
    by (rule parse_entries) (use v s in simp)
  then show ?thesis using s l by (simp add: parseTree_def treeContent_def)
qed


theorem parseTree_writeTree_roundtrip_witness:
  "parseTree \<lparr>obj_type = js ''tree'',
              obj_content = Bytes (treeContent unitCompare [item_dir, item_foo]),
              obj_id = sha_a\<rparr> = Some [item_foo, item_dir]"
  using parseTree_writeTree_roundtrip [of "[item_dir, item_foo]" unitCompare sha_a]
    example_valid example_dir_sorted
  by simp

text \<open>
  C4 as stated fails: entries given in another order than the sorted one do not come
  back entry for entry.
\<close>

theorem parseTree_writeTree_reorders:
  "parseTree \<lparr>obj_type = js ''tree'',
              obj_content = Bytes (treeContent letterCompare [item_b, item_a]),
              obj_id = sha_a\<rparr> = Some [item_a, item_b] \<and>
   [item_a, item_b] \<noteq> [item_b, item_a]"
proof -
  have "parseTree_loop ([] @ concat (map treeEntry [item_a, item_b]))
          (int (length ([] :: jsval list))) [] = Some ([] @ [item_a, item_b])"
    by (rule parse_entries) (simp add: example_valid)
  moreover have "item_a \<noteq> item_b" by (simp add: item_defs js_def)
  ultimately show ?thesis
    by (simp add: parseTree_def treeContent_def example_letter_sorted)
qed

text \<open>An entry of kind submodule is written with the mode of a regular file and is
  decoded as a blob.\<close>

lemma submodule_decodes_as_blob:
  "parseTree \<lparr>obj_type = js ''tree'',
              obj_content = Bytes (treeContent localeCompare [item_sub]),
              obj_id = sha_a\<rparr> = Some [item_sub\<lparr>item_type := js ''blob''\<rparr>]"
proof -
  have v: "validItem (item_sub\<lparr>item_type := js ''blob''\<rparr>)"
    by (simp add: validItem_def validName_def item_defs eval_defs isHighSurrogate_def
        isLowSurrogate_def)
  have e: "treeEntry item_sub = treeEntry (item_sub\<lparr>item_type := js ''blob''\<rparr>)"
    by (simp add: treeEntry_def item_defs js_def)
  have "parseTree_loop ([] @ concat (map treeEntry [item_sub\<lparr>item_type := js ''blob''\<rparr>]))
          (int (length ([] :: jsval list))) [] = Some ([] @ [item_sub\<lparr>item_type := js ''blob''\<rparr>])"
    by (rule parse_entries) (simp add: v)
  then show ?thesis
    by (simp add: parseTree_def treeContent_def sortedItems_def sort_cmp_def e)
qed

section \<open>The kind of a decoded entry\<close>

lemma decode_short_names:
  "decodeUTF8 (stringToArray (js ''a'')) = js ''a''"
  "decodeUTF8 (stringToArray (js ''x'')) = js ''x''"
  by (simp_all add: decodeUTF8_def stringToArray_def utf16_units_def js_def)

lemma mode_strings:
  "arrayToString (stringToArray (js ''100644'')) = js ''100644''"
  "arrayToString (stringToArray (js ''160000'')) = js ''160000''"
  "arrayToString (stringToArray (js ''040000'')) = js ''040000''"
  "arrayToString (stringToArray (js ''999999'')) = js ''999999''"
  by (simp_all add: arrayToString_def stringToArray_def js_def)

lemma mode_bytes:
  "Num 32 \<notin> set (stringToArray (js ''100644''))"
  "Num 32 \<notin> set (stringToArray (js ''160000''))"
  "Num 32 \<notin> set (stringToArray (js ''040000''))"
  "Num 32 \<notin> set (stringToArray (js ''999999''))"
  "Num 0 \<notin> set (stringToArray (js ''a''))"
  "Num 0 \<notin> set (stringToArray (js ''x''))"
  by (simp_all add: stringToArray_def js_def)

lemma isSha_b: "isSha sha_b"
  by (simp add: eval_defs)

text \<open>
  C7, as the code has it. \<open>parseTree\<close> tells two prefixes apart: a mode that starts
  with \<open>100\<close> gives the kind blob, one that starts with \<open>160\<close> the kind submodule,
  and every other mode the kind tree. No mode makes the decoding fail.
\<close>

theorem parseTree_entry_kind:
  assumes "Num 32 \<notin> set m" "Num 0 \<notin> set n" "length i = 20"
  shows "parseTree \<lparr>obj_type = t, obj_content = Bytes (m @ Num 32 # n @ Num 0 # i), obj_id = ident\<rparr> =
     Some [\<lparr>item_type =
              (if startsWith (arrayToString m) (js ''100'') then js ''blob''
               else if startsWith (arrayToString m) (js ''160'') then js ''submodule''
               else js ''tree''),
            item_name = decodeUTF8 n, item_id = unpackSha i\<rparr>]"
  using parseTree_loop_entry [OF assms, of "[]" "[]" "[]"]
    parseTree_loop_end [of "m @ Num 32 # n @ Num 0 # i"]
  by (simp add: parseTree_def entryType_def assms(3))


theorem parseTree_entry_kind_witness:
  "parseTree \<lparr>obj_type = js ''tree'',
      obj_content = Bytes (stringToArray (js ''100644'') @ Num 32 # stringToArray (js ''a'') @
                           Num 0 # packSha sha_b),
      obj_id = sha_a\<rparr> =
     Some [\<lparr>item_type = js ''blob'', item_name = js ''a'', item_id = sha_b\<rparr>] \<and>
   parseTree \<lparr>obj_type = js ''tree'',
      obj_content = Bytes (stringToArray (js ''160000'') @ Num 32 # stringToArray (js ''a'') @
                           Num 0 # packSha sha_b),
      obj_id = sha_a\<rparr> =
     Some [\<lparr>item_type = js ''submodule'', item_name = js ''a'', item_id = sha_b\<rparr>] \<and>
   parseTree \<lparr>obj_type = js ''tree'',
      obj_content = Bytes (stringToArray (js ''040000'') @ Num 32 # stringToArray (js ''a'') @
                           Num 0 # packSha sha_b),
      obj_id = sha_a\<rparr> =
     Some [\<lparr>item_type = js ''tree'', item_name = js ''a'', item_id = sha_b\<rparr>]"
proof -
  have s: "startsWith (js ''100644'') (js ''100'')" "\<not> startsWith (js ''160000'') (js ''100'')"
    "startsWith (js ''160000'') (js ''160'')" "\<not> startsWith (js ''040000'') (js ''100'')"
    "\<not> startsWith (js ''040000'') (js ''160'')"
    by (simp_all add: startsWith_def js_def)
  show ?thesis
    using parseTree_entry_kind [OF mode_bytes(1) mode_bytes(5) length_packSha [OF isSha_b],
        of "js ''tree''" sha_a]
      parseTree_entry_kind [OF mode_bytes(2) mode_bytes(5) length_packSha [OF isSha_b],
        of "js ''tree''" sha_a]
      parseTree_entry_kind [OF mode_bytes(3) mode_bytes(5) length_packSha [OF isSha_b],
        of "js ''tree''" sha_a]
    by (simp add: mode_strings decode_short_names unpackSha_packSha [OF isSha_b] s)
qed

text \<open>
  C7 as stated fails: a record whose mode starts with none of the recognised prefixes
  is decoded, as an entry of kind tree.
\<close>

theorem parseTree_unknown_mode_is_tree:
  "parseTree \<lparr>obj_type = js ''tree'',
      obj_content = Bytes (stringToArray (js ''999999'') @ Num 32 # stringToArray (js ''x'') @
                           Num 0 # packSha sha_b),
      obj_id = sha_a\<rparr> =
     Some [\<lparr>item_type = js ''tree'', item_name = js ''x'', item_id = sha_b\<rparr>]"
proof -
  have s: "\<not> startsWith (js ''999999'') (js ''100'')" "\<not> startsWith (js ''999999'') (js ''160'')"
    by (simp_all add: startsWith_def js_def)
  show ?thesis
    using parseTree_loop_entry [OF mode_bytes(4) mode_bytes(6) length_packSha [OF isSha_b],
        of "[]" "[]" "[]"]
      parseTree_loop_end [of "stringToArray (js ''999999'') @ Num 32 # stringToArray (js ''x'') @
                           Num 0 # packSha sha_b"]
    by (simp add: parseTree_def entryType_def mode_strings decode_short_names
        unpackSha_packSha [OF isSha_b] length_packSha [OF isSha_b] s)
qed

section \<open>Updating a ref\<close>







section \<open>The list of refs\<close>

lemma addPacked_None: "packedName l = None \<Longrightarrow> addPacked refs l = refs"
  by (simp add: addPacked_def)

lemma addPacked_old: "packedName l = Some r \<Longrightarrow> r \<in> set refs \<Longrightarrow> addPacked refs l = refs"
  by (simp add: addPacked_def)

lemma addPacked_new:
  "packedName l = Some r \<Longrightarrow> r \<notin> set refs \<Longrightarrow> addPacked refs l = refs @ [r]"
  by (simp add: addPacked_def)

lemma addPacked_set:
  "set (foldl addPacked refs lines) = set refs \<union> set (List.map_filter packedName lines)"
proof (induction lines arbitrary: refs)
  case Nil
  then show ?case by simp
next
  case (Cons l ls)
  show ?case
  proof (cases "packedName l")
    case None
    then show ?thesis by (simp add: Cons addPacked_None)
  next
    case (Some r)
    then show ?thesis
      by (cases "r \<in> set refs")
         (auto simp: Cons addPacked_old addPacked_new)
  qed
qed

lemma addPacked_extends:
  "\<exists>ext. foldl addPacked refs lines = refs @ ext \<and> distinct ext \<and> set ext \<inter> set refs = {}"
proof (induction lines arbitrary: refs)
  case Nil
  then show ?case by simp
next
  case (Cons l ls)
  show ?case
  proof (cases "packedName l")
    case None
    then show ?thesis using Cons [of refs] by (simp add: addPacked_None)
  next
    case (Some r)
    show ?thesis
    proof (cases "r \<in> set refs")
      case True
      then show ?thesis using Cons [of refs] Some by (simp add: addPacked_old)
    next
      case False
      from Cons [of "refs @ [r]"] obtain ext where
        e: "foldl addPacked (refs @ [r]) ls = (refs @ [r]) @ ext" "distinct ext"
           "set ext \<inter> set (refs @ [r]) = {}" by blast
      have "foldl addPacked refs (l # ls) = refs @ (r # ext)"
        using e(1) Some False by (simp add: addPacked_new)
      moreover have "distinct (r # ext)" using e(2,3) by auto
      moreover have "set (r # ext) \<inter> set refs = {}" using e(3) False by auto
      ultimately show ?thesis by blast
    qed
  qed
qed

lemma getRefList_extends:
  "\<exists>ext. getRefList g = looseRefs g @ ext \<and> distinct ext \<and> set ext \<inter> set (looseRefs g) = {}"
  by (cases "readFile g (js ''packed-refs'')")
     (simp_all add: getRefList_def addPacked_extends)

lemma getRefList_set: "set (getRefList g) = set (looseRefs g) \<union> set (packedNames g)"
  by (cases "readFile g (js ''packed-refs'')")
     (simp_all add: getRefList_def packedNames_def addPacked_set)

lemma split_acc_no_sep: "sep \<notin> set cs \<Longrightarrow> split_acc sep acc cs = [rev acc @ cs]"
  by (induction cs arbitrary: acc) auto

lemma split_acc_at_sep:
  "sep \<notin> set a \<Longrightarrow> split_acc sep acc (a @ sep # b) = (rev acc @ a) # split_acc sep [] b"
  by (induction a arbitrary: acc) auto

lemma packedName_entry_line:
  assumes "isSha s" "name \<noteq> []" "32 \<notin> set name"
  shows "packedName (s @ 32 # name) = Some name"
proof -
  from assms(1) have hex: "\<forall>c \<in> set s. isHexLower c" and len: "length s = 40"
    by (simp_all add: isSha_def list_all_iff)
  from hex have nosp: "32 \<notin> set s" by (auto simp: isHexLower_def)
  from len obtain c cs where s: "s = c # cs" by (cases s) auto
  with hex have c: "isHexLower c" by simp
  have "split 32 (s @ 32 # name) = [s, name]"
    using nosp assms(3) by (simp add: split_def split_acc_at_sep split_acc_no_sep)
  moreover have "trim (s @ 32 # name) \<noteq> []"
    using c s hex_not_white [OF c] by (auto simp: trim_Nil_iff)
  moreover have "\<not> startsWith (s @ 32 # name) (js ''#'')"
    using c s by (auto simp: startsWith_def js_def isHexLower_def)
  ultimately show ?thesis using assms(2) by (simp add: packedName_def)
qed

lemma packedName_comment: "packedName (35 # comment) = None"
  by (simp add: packedName_def startsWith_def js_def)

lemma refs_git_loose:
  "looseRefs refs_git = [js ''refs/heads/master'', js ''refs/tags/v1'']"
  by (simp add: looseRefs_def listDirectory_def refs_git_def new_git_def js_def)

lemma refs_git_packed:
  "packedNames refs_git = [js ''refs/heads/master'', js ''refs/heads/packed'']"
  by (simp add: packedNames_def packedName_def split_def refs_git_def eval_defs)

lemma refs_git_list:
  "getRefList refs_git = [js ''refs/heads/master'', js ''refs/tags/v1'', js ''refs/heads/packed'']"
  by (simp add: getRefList_def addPacked_def looseRefs_def listDirectory_def 
     packedName_def split_def refs_git_def eval_defs)

lemma empty_git_loose: "dirs (zeroPage empty_git) (root empty_git @ js ''/refs'') = None"
  by (simp add: empty_git_def new_git_def)

lemma empty_git_packed:
  "files (zeroPage empty_git) (root empty_git @ js ''/'' @ js ''packed-refs'') = None"
  by (simp add: empty_git_def new_git_def)

lemma refs_git_loose_distinct: "distinct (looseRefs refs_git)"
  by (simp add: refs_git_loose js_def)

text \<open>
  C9. \<open>getRefList\<close> never fails. The loose names are the entries of the listing
  of the directory \<open>refs\<close>, each prefixed with \<open>refs/\<close>. The result holds
  exactly the loose names and the names of the packed-ref table. The loose names come first, as listed; the packed names follow, each
  once and only when no loose name and no earlier packed line has it, so a listing
  without repeated entries gives a result without repeated names. An absent \<open>refs\<close>
  directory gives no loose name and an absent \<open>packed-refs\<close> file no packed name.
  A line \<open><id> <name>\<close> of the table contributes \<open><name>\<close>, a line that starts
  with \<open>#\<close> nothing.
\<close>

theorem getRefList_union:
  "looseRefs g =
     map (\<lambda>entry. js ''refs/'' @ entry)
       (case dirs (zeroPage g) (root g @ js ''/refs'') of None \<Rightarrow> [] | Some listing \<Rightarrow> listing) \<and>
   (dirs (zeroPage g) (root g @ js ''/refs'') = Some listing \<and> distinct listing \<longrightarrow>
      distinct (getRefList g)) \<and>
   set (getRefList g) = set (looseRefs g) \<union> set (packedNames g) \<and>
   take (length (looseRefs g)) (getRefList g) = looseRefs g \<and>
   distinct (drop (length (looseRefs g)) (getRefList g)) \<and>
   set (drop (length (looseRefs g)) (getRefList g)) \<inter> set (looseRefs g) = {} \<and>
   (distinct (looseRefs g) \<longrightarrow> distinct (getRefList g)) \<and>
   (dirs (zeroPage g) (root g @ js ''/refs'') = None \<longrightarrow> looseRefs g = []) \<and>
   (files (zeroPage g) (root g @ js ''/'' @ js ''packed-refs'') = None \<longrightarrow>
      packedNames g = [] \<and> getRefList g = looseRefs g) \<and>
   (isSha s \<and> name \<noteq> [] \<and> 32 \<notin> set name \<longrightarrow> packedName (s @ 32 # name) = Some name) \<and>
   packedName (35 # comment) = None"
proof -
  obtain ext where e: "getRefList g = looseRefs g @ ext" "distinct ext"
    "set ext \<inter> set (looseRefs g) = {}"
    using getRefList_extends by blast
  have c1: "set (getRefList g) = set (looseRefs g) \<union> set (packedNames g)"
    by (rule getRefList_set)
  have c2: "take (length (looseRefs g)) (getRefList g) = looseRefs g"
    using e(1) by simp
  have c3: "distinct (drop (length (looseRefs g)) (getRefList g))"
    using e(1,2) by simp
  have c4: "set (drop (length (looseRefs g)) (getRefList g)) \<inter> set (looseRefs g) = {}"
    using e(1,3) by simp
  have c5: "distinct (looseRefs g) \<longrightarrow> distinct (getRefList g)"
    using e by auto
  have c6: "dirs (zeroPage g) (root g @ js ''/refs'') = None \<longrightarrow> looseRefs g = []"
    by (simp add: looseRefs_def listDirectory_def)
  have c7: "files (zeroPage g) (root g @ js ''/'' @ js ''packed-refs'') = None \<longrightarrow>
      packedNames g = [] \<and> getRefList g = looseRefs g"
    by (simp add: getRefList_def packedNames_def readFile_def)
  have c8: "isSha s \<and> name \<noteq> [] \<and> 32 \<notin> set name \<longrightarrow> packedName (s @ 32 # name) = Some name"
    by (simp add: packedName_entry_line)
  have c9: "packedName (35 # comment) = None"
    by (rule packedName_comment)
  have c0: "looseRefs g =
     map (\<lambda>entry. js ''refs/'' @ entry)
       (case dirs (zeroPage g) (root g @ js ''/refs'') of None \<Rightarrow> [] | Some listing \<Rightarrow> listing)"
    by (simp add: looseRefs_def listDirectory_def)
  have inj: "inj_on (\<lambda>entry. js ''refs/'' @ entry) (set listing)" by (simp add: inj_on_def)
  have c10: "dirs (zeroPage g) (root g @ js ''/refs'') = Some listing \<and> distinct listing \<longrightarrow>
      distinct (getRefList g)"
  proof
    assume d: "dirs (zeroPage g) (root g @ js ''/refs'') = Some listing \<and> distinct listing"
    then have "looseRefs g = map (\<lambda>entry. js ''refs/'' @ entry) listing" using c0 by simp
    then have "distinct (looseRefs g)" using d inj by (simp add: distinct_map)
    with c5 show "distinct (getRefList g)" by simp
  qed
  show ?thesis using c0 c10 c1 c2 c3 c4 c5 c6 c7 c8 c9 by blast
qed

theorem getRefList_union_witness:
  "getRefList refs_git =
     [js ''refs/heads/master'', js ''refs/tags/v1'', js ''refs/heads/packed''] \<and>
   looseRefs refs_git = [js ''refs/heads/master'', js ''refs/tags/v1''] \<and>
   packedNames refs_git = [js ''refs/heads/master'', js ''refs/heads/packed''] \<and>
   distinct (getRefList refs_git) \<and>
   getRefList empty_git = [] \<and>
   looseRefs empty_git = [] \<and>
   packedName (sha_c @ 32 # js ''refs/heads/packed'') = Some (js ''refs/heads/packed'')"
proof -
  have sc: "isSha sha_c" by (simp add: eval_defs)
  have nm: "js ''refs/heads/packed'' \<noteq> [] \<and> 32 \<notin> set (js ''refs/heads/packed'')"
    by (simp add: js_def)
  have ls: "dirs (zeroPage refs_git) (root refs_git @ js ''/refs'') =
              Some [js ''heads/master'', js ''tags/v1''] \<and>
            distinct [js ''heads/master'', js ''tags/v1'']"
    by (simp add: refs_git_def new_git_def js_def)
  have lo: "looseRefs refs_git = [js ''refs/heads/master'', js ''refs/tags/v1'']"
    using getRefList_union [of refs_git] ls by (simp add: js_def)
  have di: "distinct (getRefList refs_git)"
    using getRefList_union [of refs_git "[js ''heads/master'', js ''tags/v1'']"] ls by blast
  have em: "getRefList empty_git = [] \<and> looseRefs empty_git = []"
    using getRefList_union [of empty_git] empty_git_loose empty_git_packed by simp
  have pk: "packedName (sha_c @ 32 # js ''refs/heads/packed'') = Some (js ''refs/heads/packed'')"
    using getRefList_union [of refs_git _ sha_c "js ''refs/heads/packed''"] sc nm by blast
  show ?thesis
    using lo di em pk refs_git_list refs_git_packed by simp
qed

section \<open>Writing a ref and reading it back\<close>

lemma hex_units: "list_all isHexLower s \<Longrightarrow> map (\<lambda>c. c mod 65536) s = s"
  by (induction s) (auto simp: isHexLower_def)

lemma hex_bytes_back:
  "list_all isHexLower s \<Longrightarrow> arrayToString (map (\<lambda>c. Num (int (c mod 256))) s) = s"
  by (induction s) (auto simp: arrayToString_def isHexLower_def)

lemma hex_wellFormed: "list_all isHexLower s \<Longrightarrow> wellFormed s"
  by (rule wellFormed_low) (auto simp: list_all_iff isHexLower_def)

lemma sha_not_symbolic: "isSha s \<Longrightarrow> \<not> startsWith s (js ''ref:'')"
proof
  assume s: "isSha s" and st: "startsWith s (js ''ref:'')"
  from s obtain c cs where "s = c # cs" "isHexLower c"
    by (cases s) (auto simp: isSha_def)
  with st show False by (auto simp: startsWith_def js_def isHexLower_def)
qed

text \<open>
  C10. For every repository state, every ref name and every id of 40 lower-case hex
  characters, \<open>setRef\<close> succeeds, and \<open>getRef\<close> on the same name in the state it
  leaves returns exactly that id: the stored content has no surrounding white space and
  does not start with \<open>ref:\<close>, so \<open>getRef\<close> returns at once. The backend is the
  reliable store of the model, which answers a read with what was last written at the
  path.
\<close>

theorem setRef_getRef_roundtrip:
  "isSha commit \<Longrightarrow>
   setRef g ref commit =
     Inr (g\<lparr>zeroPage := (zeroPage g)
            \<lparr>files := (files (zeroPage g))(root g @ js ''/'' @ ref \<mapsto> commit)\<rparr>\<rparr>) \<and>
   getRef (g\<lparr>zeroPage := (zeroPage g)
              \<lparr>files := (files (zeroPage g))(root g @ js ''/'' @ ref \<mapsto> commit)\<rparr>\<rparr>) ref =
     Some (Inr commit)"
proof -
  assume s: "isSha commit"
  then have h: "list_all isHexLower commit" by (simp add: isSha_def)
  have u: "map fromCharCode (stringToArray commit) = commit"
    by (simp add: fromCharCode_units hex_units [OF h])
  have w: "wellFormed (map fromCharCode (stringToArray commit))"
    unfolding u by (rule hex_wellFormed [OF h])
  have a: "setRef g ref commit =
     Inr (g\<lparr>zeroPage := (zeroPage g)
            \<lparr>files := (files (zeroPage g))(root g @ js ''/'' @ ref \<mapsto> commit)\<rparr>\<rparr>)"
    by (simp add: setRef_def writeFile_ok [OF w] u)
  have b: "getRef (g\<lparr>zeroPage := (zeroPage g)
              \<lparr>files := (files (zeroPage g))(root g @ js ''/'' @ ref \<mapsto> commit)\<rparr>\<rparr>) ref =
     Some (Inr commit)"
    by (subst getRef.simps)
       (simp add: readFile_written hex_bytes_back [OF h] trim_hex [OF h] sha_not_symbolic [OF s])
  show ?thesis using a b by simp
qed

theorem setRef_getRef_roundtrip_witness:
  "isSha sha_b \<and>
   setRef refs_git (js ''refs/heads/master'') sha_b =
     Inr (refs_git\<lparr>zeroPage := (zeroPage refs_git)
            \<lparr>files := (files (zeroPage refs_git))
               (root refs_git @ js ''/'' @ js ''refs/heads/master'' \<mapsto> sha_b)\<rparr>\<rparr>) \<and>
   getRef (refs_git\<lparr>zeroPage := (zeroPage refs_git)
              \<lparr>files := (files (zeroPage refs_git))
                 (root refs_git @ js ''/'' @ js ''refs/heads/master'' \<mapsto> sha_b)\<rparr>\<rparr>)
     (js ''refs/heads/master'') = Some (Inr sha_b)"
proof -
  have s: "isSha sha_b" by (simp add: eval_defs)
  show ?thesis
    using setRef_getRef_roundtrip [OF s, of refs_git "js ''refs/heads/master''"] s by simp
qed

end
